theory Spec2Isabelle
  imports Complex_Main "HOL-Library.Sublist" "HOL-Library.AList" "HOL-Library.Multiset"
begin

section \<open>goteststats: per-test execution times from a go test event stream\<close>

text \<open>
  The program (\<^verbatim>\<open>main.go\<close>) reads the events of \<^verbatim>\<open>go test -json\<close> one by one and keeps,
  for every test, an adjusted execution time (its share of the elapsed time while it ran
  together with other tests) and a total execution time. This theory embeds the handlers
  of \<^verbatim>\<open>main.go\<close> and the report loop of \<^verbatim>\<open>main\<close>.

  \<^item> The two global maps \<^verbatim>\<open>allTests\<close> and \<^verbatim>\<open>runningTests\<close> hold pointers to shared
    \<^verbatim>\<open>RunningTest\<close> values, and records point to each other through \<^verbatim>\<open>Parent\<close> and
    \<^verbatim>\<open>Children\<close>. The model has an explicit store: a pointer is an index into the list
    \<open>heap\<close>, allocation appends to it, and a write through a pointer is a list update.
  \<^item> A Go map is an association list with distinct keys; \<open>map_of\<close> is the lookup,
    \<open>AList.update\<close> the assignment \<^verbatim>\<open>m[k] = v\<close> and \<open>AList.delete\<close> is \<^verbatim>\<open>delete(m, k)\<close>.
    The order in which \<^verbatim>\<open>range\<close> visits a map is not specified by Go; where the result
    depends on it (the search for a sibling in \<^verbatim>\<open>handleRun\<close>, the report), the order is
    chosen by a seed (\<open>range_order\<close>); the other loops are shown not to depend on it.
  \<^item> \<^verbatim>\<open>time.Duration\<close> is an \<^verbatim>\<open>int64\<close> count of nanoseconds: an \<open>int\<close> kept in the
    \<^verbatim>\<open>int64\<close> range, with the wrap-around of \<^verbatim>\<open>+=\<close> written out (\<open>wrap64\<close>). A
    \<^verbatim>\<open>time.Time\<close> is an instant, an \<open>int\<close> of nanoseconds on the time line.
  \<^item> A panic is a value of the result type; \<^verbatim>\<open>fmt.Printf\<close> appends a line to \<open>printed\<close>.
\<close>

subsection \<open>Durations and instants\<close>

definition minDuration :: int where
  "minDuration = - (2 ^ 63)"

definition maxDuration :: int where
  "maxDuration = 2 ^ 63 - 1"

definition Millisecond :: int where
  "Millisecond = 1000000"

text \<open>The value an \<^verbatim>\<open>int64\<close> holds after an arithmetic operation whose exact result is \<open>x\<close>.\<close>

definition wrap64 :: "int \<Rightarrow> int" where
  "wrap64 x = (x + 2 ^ 63) mod 2 ^ 64 - 2 ^ 63"

text \<open>
  \<^verbatim>\<open>t.Sub(u)\<close> of package \<^verbatim>\<open>time\<close>, for instants without a monotonic clock reading (the
  events are decoded from JSON): the difference, or the largest or smallest duration when
  the difference does not fit.
\<close>

definition Sub :: "int \<Rightarrow> int \<Rightarrow> int" where
  "Sub t u = (if t - u < minDuration then minDuration
              else if maxDuration < t - u then maxDuration
              else t - u)"

text \<open>
  Go's \<^verbatim>\<open>/\<close> and \<^verbatim>\<open>%\<close> on \<^verbatim>\<open>int64\<close>, for a divisor that is not zero: the quotient is
  truncated towards zero. The callers below check for the zero divisor, where Go panics.
\<close>

definition duration_div :: "int \<Rightarrow> int \<Rightarrow> int" where
  "duration_div a b = wrap64 (sgn a * sgn b * (\<bar>a\<bar> div \<bar>b\<bar>))"

definition duration_rem :: "int \<Rightarrow> int \<Rightarrow> int" where
  "duration_rem a b = sgn a * (\<bar>a\<bar> mod \<bar>b\<bar>)"

text \<open>
  \<^verbatim>\<open>d.Round(m)\<close> of package \<^verbatim>\<open>time\<close>: \<open>d\<close> rounded to the nearest multiple of \<open>m\<close>,
  halfway values away from zero, the largest or smallest duration when the result does
  not fit.
\<close>

definition Round :: "int \<Rightarrow> int \<Rightarrow> int" where
  "Round d m =
     (if m \<le> 0 then d
      else if d < 0 then
        (let r = - duration_rem d m in
         if r + r < m then wrap64 (d + r)
         else (let d1 = wrap64 (d - m + r) in if d1 < d then d1 else minDuration))
      else
        (let r = duration_rem d m in
         if r + r < m then wrap64 (d - r)
         else (let d1 = wrap64 (d + m - r) in if d < d1 then d1 else maxDuration)))"

subsection \<open>Events, test records and the state\<close>

record Event =
  Time :: int
  Action :: string
  Test :: string
  Package :: string

type_synonym addr = nat

record RunningTest =
  Name :: string
  Package :: string
  LastTimestamp :: int
  AdjustedExecutionTime :: int
  TotalExecutionTime :: int
  Children :: "addr list"
  Parent :: "addr option"
  AssumedStopped :: bool
  Parallel :: bool

text \<open>What the program prints, one value per \<^verbatim>\<open>Printf\<close> call; the layout of a line is not modelled.\<close>

datatype line =
    WarnPausedNotFound string
  | WarnContinuedNotFound string
  | WarnStoppedNotFound string
  | WarnStillRunning string
  | ResultParallel string string int int int
  | ResultSingle string string int

record state =
  heap :: "RunningTest list"
  allTests :: "(string \<times> addr) list"
  runningTests :: "(string \<times> addr) list"
  printed :: "line list"

definition init :: state where
  "init = \<lparr>heap = [], allTests = [], runningTests = [], printed = []\<rparr>"

datatype panic =
    ParentNotFound string
  | MultipleRunningChildren string
  | ParentHasNoChildren string
  | UnknownAction string
  | DivideByZero
  | NilDereference

text \<open>
  The outcome of a piece of the program: it returns, it panics, or (\<open>Diverge\<close>) it does
  not return. Only the recursion of \<^verbatim>\<open>stopSibling\<close> could fail to return.
\<close>

datatype 'a result = Ok 'a | Panic panic | Diverge

definition and_then :: "'a result \<Rightarrow> ('a \<Rightarrow> 'b result) \<Rightarrow> 'b result" where
  "and_then r f = (case r of Ok x \<Rightarrow> f x | Panic p \<Rightarrow> Panic p | Diverge \<Rightarrow> Diverge)"

definition deref :: "state \<Rightarrow> addr \<Rightarrow> RunningTest" where
  "deref s a = heap s ! a"

text \<open>A write through the pointer \<open>a\<close>: the record it points to becomes \<open>f\<close> of it.\<close>

definition modify :: "addr \<Rightarrow> (RunningTest \<Rightarrow> RunningTest) \<Rightarrow> state \<Rightarrow> state" where
  "modify a f s = s\<lparr>heap := (heap s)[a := f (heap s ! a)]\<rparr>"

definition Printf :: "line \<Rightarrow> state \<Rightarrow> state" where
  "Printf l s = s\<lparr>printed := printed s @ [l]\<rparr>"

text \<open>
  The order of a \<^verbatim>\<open>range\<close> over a map: the entries are visited in the order the seed
  picks them, each number of the seed choosing one of the entries not visited yet.
\<close>

function range_order :: "nat list \<Rightarrow> 'a list \<Rightarrow> 'a list" where
  "range_order seed [] = []"
| "range_order [] (x # xs) = x # xs"
| "range_order (p # seed) (x # xs) =
     (x # xs) ! (p mod Suc (length xs)) #
       range_order seed (take (p mod Suc (length xs)) (x # xs) @ drop (Suc (p mod Suc (length xs))) (x # xs))"
  by pat_completeness auto
termination
  by (relation "measure (\<lambda>(seed, xs). length xs)") (auto simp: min_def)

subsection \<open>The time attribution: \<^verbatim>\<open>updateExecutionTimes\<close> and \<^verbatim>\<open>updateRunningTests\<close>\<close>

text \<open>
  The number of running tests that are not assumed stopped. The counter of the source is
  a \<^verbatim>\<open>uint64\<close> and is converted to a \<^verbatim>\<open>time.Duration\<close>; the length of a Go map is an
  \<^verbatim>\<open>int\<close>, so neither the counter nor the conversion wraps.
\<close>

definition count_running :: "state \<Rightarrow> nat" where
  "count_running s = length (filter (\<lambda>(k, a). \<not> AssumedStopped (deref s a)) (runningTests s))"

text \<open>The three assignments that close the interval of a record at the instant \<open>t\<close>.\<close>

definition advance :: "int \<Rightarrow> nat \<Rightarrow> RunningTest \<Rightarrow> RunningTest" where
  "advance t count' r =
     r\<lparr>AdjustedExecutionTime :=
         wrap64 (AdjustedExecutionTime r + duration_div (Sub t (LastTimestamp r)) (int count')),
       TotalExecutionTime := wrap64 (TotalExecutionTime r + Sub t (LastTimestamp r)),
       LastTimestamp := t\<rparr>"

definition updateExecutionTimesWithCount :: "addr \<Rightarrow> Event \<Rightarrow> nat \<Rightarrow> state \<Rightarrow> state result" where
  "updateExecutionTimesWithCount runningTest event count' s =
     (if AssumedStopped (deref s runningTest) then Ok s
      else if count' = 0 then Panic DivideByZero
      else Ok (modify runningTest (advance (Time event) count') s))"

definition updateExecutionTimes :: "addr \<Rightarrow> Event \<Rightarrow> state \<Rightarrow> state result" where
  "updateExecutionTimes runningTest event s =
     (if AssumedStopped (deref s runningTest) then Ok s
      else if count_running s = 0 then Panic DivideByZero
      else Ok (modify runningTest (advance (Time event) (count_running s)) s))"

fun update_each :: "Event \<Rightarrow> nat \<Rightarrow> addr list \<Rightarrow> state \<Rightarrow> state result" where
  "update_each event count' [] s = Ok s"
| "update_each event count' (runningTest # rest) s =
     and_then (updateExecutionTimesWithCount runningTest event count' s) (update_each event count' rest)"

definition updateRunningTests :: "Event \<Rightarrow> state \<Rightarrow> state result" where
  "updateRunningTests event s =
     update_each event (count_running s) (map snd (runningTests s)) s"

subsection \<open>The hierarchy resolver: \<^verbatim>\<open>isSubTest\<close> and the parent search of \<^verbatim>\<open>handleRun\<close>\<close>

text \<open>
  \<^verbatim>\<open>\S\<close> of Go's \<^verbatim>\<open>regexp\<close>: any character but tab, line feed, form feed, carriage return
  and space.
\<close>

definition nonspace :: "char \<Rightarrow> bool" where
  "nonspace c = (c \<noteq> CHR 0x09 \<and> c \<noteq> CHR 0x0A \<and> c \<noteq> CHR 0x0C \<and> c \<noteq> CHR 0x0D \<and> c \<noteq> CHR '' '')"

text \<open>
  \<^verbatim>\<open>isSubTest\<close> matches the name against \<^verbatim>\<open>^(?P<parent>\S+)/\S+$\<close>. The name matches when
  it has no space character and a slash with at least one character on each side; the
  first group is greedy, so the parent is what stands before the last such slash.
\<close>

definition isSubTest :: "string \<Rightarrow> string \<times> bool" where
  "isSubTest test =
     (if list_all nonspace test then
        (case filter (\<lambda>i. test ! i = CHR ''/'') (rev [1..<length test - 1]) of
           [] \<Rightarrow> ([], False)
         | i # _ \<Rightarrow> (take i test, True))
      else ([], False))"

definition newRunningTest :: "Event \<Rightarrow> RunningTest" where
  "newRunningTest event =
     \<lparr>Name = Test event, Package = Event.Package event, LastTimestamp = Time event,
      AdjustedExecutionTime = 0, TotalExecutionTime = 0, Children = [], Parent = None,
      AssumedStopped = False, Parallel = False\<rparr>"

text \<open>
  Lines 115 to 119: the new record is allocated and \<^verbatim>\<open>allTests[event.Test]\<close> points to it.
\<close>

definition allocate :: "Event \<Rightarrow> state \<Rightarrow> state" where
  "allocate event s =
     s\<lparr>heap := heap s @ [newRunningTest event],
       allTests := AList.update (Test event) (length (heap s)) (allTests s)\<rparr>"

text \<open>
  Lines 123 to 146 of \<^verbatim>\<open>handleRun\<close>: when the parent named by the regular expression is
  not a known test, the known names are sorted by length, longest first, and the first
  one that, followed by a slash, is a prefix of the test's name becomes the parent. At
  most one name of each length is such a prefix, so the name found does not depend on
  the order in which the map was read.
\<close>

definition resolveParent :: "string \<Rightarrow> string \<Rightarrow> state \<Rightarrow> string result" where
  "resolveParent test parent s =
     (case map_of (allTests s) parent of
        Some _ \<Rightarrow> Ok parent
      | None \<Rightarrow>
          (let names = sort_key (\<lambda>name. - int (length name)) (map fst (allTests s));
               parent' = (case find (\<lambda>name. prefix (name @ ''/'') test) names of
                            Some name \<Rightarrow> name
                          | None \<Rightarrow> parent)
           in if parent' = [] then Panic (ParentNotFound test) else Ok parent'))"

subsection \<open>The handlers\<close>

definition set_running :: "string \<Rightarrow> addr \<Rightarrow> state \<Rightarrow> state" where
  "set_running k a s = s\<lparr>runningTests := AList.update k a (runningTests s)\<rparr>"

definition delete_running :: "string \<Rightarrow> state \<Rightarrow> state" where
  "delete_running k s = s\<lparr>runningTests := AList.delete k (runningTests s)\<rparr>"

text \<open>\<^verbatim>\<open>allTests[k]\<close> used as a pointer: a missing key gives nil, and the write through it panics.\<close>

definition with_test :: "state \<Rightarrow> string \<Rightarrow> (addr \<Rightarrow> 'a result) \<Rightarrow> 'a result" where
  "with_test s k f = (case map_of (allTests s) k of None \<Rightarrow> Panic NilDereference | Some a \<Rightarrow> f a)"

text \<open>Lines 153 to 164: the new subtest is the first child of a running parent.\<close>

definition startFirstChild :: "Event \<Rightarrow> addr \<Rightarrow> state \<Rightarrow> state result" where
  "startFirstChild event runningParent s =
     with_test s (Test event) (\<lambda>test.
       let s1 = modify test (\<lambda>r. r\<lparr>Parent := Some runningParent\<rparr>) s;
           s2 = modify runningParent (\<lambda>r. r\<lparr>Children := Children r @ [test]\<rparr>) s1
       in if length (Children (deref s2 runningParent)) = 1 then
            and_then (updateExecutionTimes runningParent event s2) (\<lambda>s3.
              Ok (set_running (Test event) test
                    (delete_running (Name (deref s3 runningParent)) s3)))
          else Panic (MultipleRunningChildren (Name (deref s2 runningParent))))"

text \<open>
  \<^verbatim>\<open>stopSibling\<close> climbs the \<^verbatim>\<open>Parent\<close> pointers of \<open>potentialSibling\<close>. The first argument
  bounds the number of calls; \<open>handleRun\<close> passes the number of records, which a chain of
  distinct records cannot exceed, so \<open>Diverge\<close> stands for a cycle of \<^verbatim>\<open>Parent\<close> pointers.
  No statement between the reads of \<^verbatim>\<open>potentialSibling.Parent\<close> changes that field, so it
  is read once.
\<close>

fun stopSibling :: "nat \<Rightarrow> Event \<Rightarrow> addr \<Rightarrow> addr \<Rightarrow> string \<Rightarrow> state \<Rightarrow> (bool \<times> state) result" where
  "stopSibling 0 event runningTest potentialSibling parent s = Diverge"
| "stopSibling (Suc fuel) event runningTest potentialSibling parent s =
     (case Parent (deref s potentialSibling) of
        None \<Rightarrow> Ok (False, s)
      | Some p \<Rightarrow>
          if Name (deref s p) = parent \<and> \<not> Parallel (deref s runningTest)
             \<and> \<not> AssumedStopped (deref s runningTest) then
            and_then (updateExecutionTimes runningTest event s) (\<lambda>s1.
              let s2 = modify runningTest (\<lambda>r. r\<lparr>AssumedStopped := True\<rparr>) s1 in
              with_test s2 (Test event) (\<lambda>test.
                let s3 = modify test (\<lambda>r. r\<lparr>Parent := Some p\<rparr>) s2;
                    s4 = modify p (\<lambda>r. r\<lparr>Children := Children r @ [test]\<rparr>) s3
                in Ok (True, set_running (Test event) test s4)))
          else if Parent (deref s p) \<noteq> None then
            stopSibling fuel event runningTest p parent s
          else Ok (False, s))"

text \<open>Lines 168 to 172: the running tests are tried in the order of the \<^verbatim>\<open>range\<close>.\<close>

fun stopSiblings :: "Event \<Rightarrow> string \<Rightarrow> addr list \<Rightarrow> state \<Rightarrow> (bool \<times> state) result" where
  "stopSiblings event parent [] s = Ok (False, s)"
| "stopSiblings event parent (runningTest # rest) s =
     and_then (stopSibling (length (heap s)) event runningTest runningTest parent s)
       (\<lambda>(stopped, s'). if stopped then Ok (True, s') else stopSiblings event parent rest s')"

text \<open>Lines 178 and 179.\<close>

definition startTest :: "Event \<Rightarrow> state \<Rightarrow> state result" where
  "startTest event s =
     and_then (updateRunningTests event s) (\<lambda>s1.
       with_test s1 (Test event) (\<lambda>test. Ok (set_running (Test event) test s1)))"

definition handleRun :: "nat list \<Rightarrow> Event \<Rightarrow> state \<Rightarrow> state result" where
  "handleRun seed event s0 =
     (let s = allocate event s0;
          (parent0, subtest) = isSubTest (Test event)
      in and_then (if subtest then resolveParent (Test event) parent0 s else Ok parent0) (\<lambda>parent.
           if subtest then
             (case map_of (runningTests s) parent of
                Some runningParent \<Rightarrow> startFirstChild event runningParent s
              | None \<Rightarrow>
                  and_then
                    (stopSiblings event parent (map snd (range_order seed (runningTests s))) s)
                    (\<lambda>(stopped, s'). if stopped then Ok s' else startTest event s'))
           else startTest event s))"

definition handlePause :: "Event \<Rightarrow> state \<Rightarrow> state result" where
  "handlePause event s =
     (case map_of (runningTests s) (Test event) of
        None \<Rightarrow> Ok (Printf (WarnPausedNotFound (Test event)) s)
      | Some pausedTest \<Rightarrow>
          (let s1 = modify pausedTest (\<lambda>r. r\<lparr>Parallel := True\<rparr>) s;
               s2 = modify pausedTest (\<lambda>r. r\<lparr>AssumedStopped := False\<rparr>) s1
           in and_then (updateRunningTests event s2) (\<lambda>s3.
                Ok (delete_running (Test event) s3))))"

text \<open>The loop of \<^verbatim>\<open>handleCont\<close>: every call of \<^verbatim>\<open>updateExecutionTimes\<close> counts again.\<close>

fun update_each_counting :: "Event \<Rightarrow> addr list \<Rightarrow> state \<Rightarrow> state result" where
  "update_each_counting event [] s = Ok s"
| "update_each_counting event (runningTest # rest) s =
     and_then (updateExecutionTimes runningTest event s) (update_each_counting event rest)"

definition handleCont :: "Event \<Rightarrow> state \<Rightarrow> state result" where
  "handleCont event s =
     (case map_of (allTests s) (Test event) of
        None \<Rightarrow> Ok (Printf (WarnContinuedNotFound (Test event)) s)
      | Some test \<Rightarrow>
          and_then (update_each_counting event (map snd (runningTests s)) s) (\<lambda>s1.
            let s2 = modify test (\<lambda>r. r\<lparr>LastTimestamp := Time event\<rparr>) s1;
                s3 = modify test (\<lambda>r. r\<lparr>AssumedStopped := False\<rparr>) s2
            in Ok (set_running (Test event) test s3)))"

text \<open>
  \<^verbatim>\<open>handleStop\<close>. No statement of it assigns a \<^verbatim>\<open>Parent\<close> field, so \<^verbatim>\<open>test.Parent\<close> is read
  once; \<^verbatim>\<open>runningTests[test.Parent.Name]\<close> on line 283 is the pointer stored on line 282.
  The loop of lines 290 to 295 removes the first occurrence of \<open>test\<close>.
\<close>

definition handleStop :: "Event \<Rightarrow> state \<Rightarrow> state result" where
  "handleStop event s =
     (case map_of (runningTests s) (Test event) of
        None \<Rightarrow> Ok (Printf (WarnStoppedNotFound (Test event)) s)
      | Some test \<Rightarrow>
          (case Parent (deref s test) of
             None \<Rightarrow>
               and_then (updateRunningTests event s) (\<lambda>s1.
                 Ok (delete_running (Test event) s1))
           | Some parent \<Rightarrow>
               if length (Children (deref s parent)) = 0 then
                 Panic (ParentHasNoChildren (Name (deref s parent)))
               else if length (Children (deref s parent)) = 1 then
                 and_then (updateExecutionTimes test event s) (\<lambda>s1.
                   let s2 = modify parent (\<lambda>r. r\<lparr>Children := []\<rparr>) s1;
                       s3 = set_running (Name (deref s2 parent)) parent s2;
                       s4 = modify parent (\<lambda>r. r\<lparr>LastTimestamp := Time event\<rparr>) s3
                   in Ok (delete_running (Test event) s4))
               else
                 and_then (if \<not> AssumedStopped (deref s test) then updateRunningTests event s
                           else Ok s) (\<lambda>s1.
                   let s2 = modify parent (\<lambda>r. r\<lparr>Children := remove1 test (Children r)\<rparr>) s1
                   in Ok (delete_running (Test event) s2))))"

subsection \<open>The loop of \<^verbatim>\<open>main\<close> over the decoded events\<close>

definition step :: "nat list \<Rightarrow> Event \<Rightarrow> state \<Rightarrow> state result" where
  "step seed event s =
     (if Test event = [] then Ok s
      else if Action event = ''run'' then handleRun seed event s
      else if Action event = ''pause'' then handlePause event s
      else if Action event = ''cont'' then handleCont event s
      else if Action event = ''pass'' \<or> Action event = ''skip'' then handleStop event s
      else if Action event = ''output'' \<or> Action event = ''start'' then Ok s
      else Panic (UnknownAction (Action event)))"

text \<open>An event comes with the seed of the map order of its handler.\<close>

fun process :: "(nat list \<times> Event) list \<Rightarrow> state \<Rightarrow> state result" where
  "process [] s = Ok s"
| "process ((seed, event) # rest) s = and_then (step seed event s) (process rest)"

subsection \<open>The report of \<^verbatim>\<open>main\<close>\<close>

definition resultsToList :: nat where
  "resultsToList = 50"

text \<open>Lines 102 to 109: the line of one test. Go panics on the division by a zero duration.\<close>

definition reportLine :: "RunningTest \<Rightarrow> line result" where
  "reportLine test =
     (let adjustedRounded = Round (AdjustedExecutionTime test) Millisecond;
          totalRounded = Round (TotalExecutionTime test) Millisecond
      in if adjustedRounded \<noteq> totalRounded then
           (if adjustedRounded = 0 then Panic DivideByZero
            else Ok (ResultParallel (RunningTest.Package test) (Name test) adjustedRounded totalRounded
                       (duration_div totalRounded adjustedRounded)))
         else Ok (ResultSingle (RunningTest.Package test) (Name test) adjustedRounded))"

text \<open>
  The loop of lines 100 to 110. A panic ends the program, and what was printed before
  it stays printed: the loop gives the state in which it ended and how it ended.
\<close>

fun printResults :: "addr list \<Rightarrow> state \<Rightarrow> state \<times> unit result" where
  "printResults [] s = (s, Ok ())"
| "printResults (test # rest) s =
     (case reportLine (deref s test) of
        Ok l \<Rightarrow> printResults rest (Printf l s)
      | Panic p \<Rightarrow> (s, Panic p)
      | Diverge \<Rightarrow> (s, Diverge))"

text \<open>
  Lines 83 to 110. \<^verbatim>\<open>sort.Slice\<close> is not stable and the keys come from a \<^verbatim>\<open>range\<close> over
  the map: the model sorts, with a stable sort, the entries in the order of the seed, so
  every order of the tests with equal adjusted times comes from some seed.
\<close>

definition selected :: "nat list \<Rightarrow> state \<Rightarrow> addr list" where
  "selected seed s =
     (let keys = sort_key (\<lambda>(k, test). - AdjustedExecutionTime (deref s test))
                   (range_order seed (allTests s));
          results = (if length keys < resultsToList then length keys else resultsToList)
      in map snd (take results keys))"

definition report :: "nat list \<Rightarrow> nat list \<Rightarrow> state \<Rightarrow> state \<times> unit result" where
  "report seed1 seed2 s =
     printResults (selected seed2 s)
       (fold (\<lambda>(k, runningTest). Printf (WarnStillRunning (Name (deref s runningTest))))
          (range_order seed1 (runningTests s)) s)"

subsection \<open>Reading a state, writing an event stream\<close>

definition adjustedTime :: "state \<Rightarrow> string \<Rightarrow> int option" where
  "adjustedTime s k = map_option (\<lambda>a. AdjustedExecutionTime (deref s a)) (map_of (allTests s) k)"

definition totalTime :: "state \<Rightarrow> string \<Rightarrow> int option" where
  "totalTime s k = map_option (\<lambda>a. TotalExecutionTime (deref s a)) (map_of (allTests s) k)"

definition dormant :: "state \<Rightarrow> string \<Rightarrow> bool option" where
  "dormant s k = map_option (\<lambda>a. AssumedStopped (deref s a)) (map_of (allTests s) k)"

text \<open>The record \<^verbatim>\<open>runningTests[k]\<close>, when \<open>k\<close> is in the active set.\<close>

definition active :: "state \<Rightarrow> string \<Rightarrow> RunningTest option" where
  "active s k = map_option (deref s) (map_of (runningTests s) k)"

definition event :: "int \<Rightarrow> string \<Rightarrow> string \<Rightarrow> string \<Rightarrow> Event" where
  "event t a n p = \<lparr>Time = t, Action = a, Test = n, Event.Package = p\<rparr>"

text \<open>\<^verbatim>\<open>main\<close> sends both \<^verbatim>\<open>pass\<close> and \<^verbatim>\<open>skip\<close> to \<^verbatim>\<open>handleStop\<close>: the two finish events.\<close>

datatype finish = Pass | Skip

fun finish_action :: "finish \<Rightarrow> string" where
  "finish_action Pass = ''pass''"
| "finish_action Skip = ''skip''"

text \<open>
  The concurrency factor in the words of the specification, \<^verbatim>\<open>round(total/adjusted)\<close>: the
  quotient of the two times, rounded to the nearest integer.
\<close>

definition spec_concurrency_factor :: "int \<Rightarrow> int \<Rightarrow> int" where
  "spec_concurrency_factor t a = round (real_of_int t / real_of_int a)"

text \<open>
  The running tests that are not assumed stopped, and the increment a uniform advance
  from \<open>s\<close> to \<open>s'\<close> gives to the adjusted time of a record: the value after minus the
  value before.
\<close>

definition active_addrs :: "state \<Rightarrow> addr list" where
  "active_addrs s = filter (\<lambda>a. \<not> AssumedStopped (deref s a)) (map snd (runningTests s))"

definition increment :: "state \<Rightarrow> state \<Rightarrow> addr \<Rightarrow> int" where
  "increment s s' a = AdjustedExecutionTime (deref s' a) - AdjustedExecutionTime (deref s a)"

text \<open>
  The tests at which the report divides by zero on line 106: the rounded adjusted time
  is zero and the rounded total time is not.
\<close>

definition zero_divisor :: "RunningTest \<Rightarrow> bool" where
  "zero_divisor test \<longleftrightarrow>
     Round (AdjustedExecutionTime test) Millisecond = 0
     \<and> Round (TotalExecutionTime test) Millisecond \<noteq> 0"

subsection \<open>How the handlers change the store\<close>

text \<open>
  The writes the handlers make to one record, at the instant \<open>t\<close> of the event: the
  advance of \<^verbatim>\<open>updateExecutionTimes\<close>, the assignments to \<^verbatim>\<open>Parent\<close> (always an older record,
  at a smaller address \<open>p\<close> than the record's own address \<open>a\<close>), to \<^verbatim>\<open>Children\<close> and to
  \<^verbatim>\<open>LastTimestamp\<close>, the mark of \<^verbatim>\<open>stopSibling\<close> on a test that is neither parallel nor
  assumed stopped, and the writes of \<^verbatim>\<open>handlePause\<close> and \<^verbatim>\<open>handleCont\<close> to the test that the
  event names (\<open>target\<close>).
\<close>

inductive record_step :: "int \<Rightarrow> bool \<Rightarrow> addr \<Rightarrow> RunningTest \<Rightarrow> RunningTest \<Rightarrow> bool"
  for t :: int and target :: bool and a :: addr where
  rs_advance: "\<not> AssumedStopped r \<Longrightarrow> 0 < c \<Longrightarrow> record_step t target a r (advance t c r)"
| rs_parent: "p < a \<Longrightarrow> record_step t target a r (r\<lparr>Parent := Some p\<rparr>)"
| rs_children: "record_step t target a r (r\<lparr>Children := cs\<rparr>)"
| rs_last: "record_step t target a r (r\<lparr>LastTimestamp := t\<rparr>)"
| rs_stop: "\<not> Parallel r \<Longrightarrow> \<not> AssumedStopped r \<Longrightarrow> record_step t target a r (r\<lparr>AssumedStopped := True\<rparr>)"
| rs_pause: "target \<Longrightarrow> record_step t target a r (r\<lparr>Parallel := True, AssumedStopped := False\<rparr>)"
| rs_cont: "target \<Longrightarrow> record_step t target a r (r\<lparr>AssumedStopped := False\<rparr>)"

text \<open>
  \<open>evolves t tg s s'\<close>: the store of \<open>s'\<close> has the records of \<open>s\<close>, each changed by a
  sequence of such writes, the record at \<open>a\<close> being the target when \<open>tg a\<close>.
\<close>

definition evolves :: "int \<Rightarrow> (addr \<Rightarrow> bool) \<Rightarrow> state \<Rightarrow> state \<Rightarrow> bool" where
  "evolves t tg s s' \<longleftrightarrow>
     length (heap s') = length (heap s) \<and>
     (\<forall>a<length (heap s). rtranclp (record_step t (tg a) a) (heap s ! a) (heap s' ! a))"

text \<open>The pointers in the two maps point into the store.\<close>

definition wf_maps :: "state \<Rightarrow> bool" where
  "wf_maps s \<longleftrightarrow> list_all (\<lambda>(k, a). a < length (heap s)) (runningTests s)
                 \<and> list_all (\<lambda>(k, a). a < length (heap s)) (allTests s)"

text \<open>Every key of the two maps is the name of the record it leads to.\<close>

definition named_maps :: "state \<Rightarrow> bool" where
  "named_maps s \<longleftrightarrow> list_all (\<lambda>(k, a). Name (heap s ! a) = k) (runningTests s)
                    \<and> list_all (\<lambda>(k, a). Name (heap s ! a) = k) (allTests s)"

text \<open>A \<^verbatim>\<open>Parent\<close> pointer points to a record allocated earlier.\<close>

definition parents_below :: "state \<Rightarrow> bool" where
  "parents_below s \<longleftrightarrow> (\<forall>a<length (heap s). \<forall>p. Parent (heap s ! a) = Some p \<longrightarrow> p < a)"

text \<open>The record that a pause or continue event names.\<close>

definition is_target :: "Event \<Rightarrow> state \<Rightarrow> addr \<Rightarrow> bool" where
  "is_target e s a \<longleftrightarrow>
     (Action e = ''pause'' \<and> map_of (runningTests s) (Test e) = Some a)
     \<or> (Action e = ''cont'' \<and> map_of (allTests s) (Test e) = Some a)"


text \<open>
  The times of a record when the first event came at \<open>T0\<close> and the last one at \<open>t\<close>:
  the adjusted time is at most the total time, which is at most the time elapsed until
  the record's last timestamp.
\<close>

definition times_ok :: "int \<Rightarrow> int \<Rightarrow> RunningTest \<Rightarrow> bool" where
  "times_ok T0 t r \<longleftrightarrow>
     0 \<le> AdjustedExecutionTime r \<and> AdjustedExecutionTime r \<le> TotalExecutionTime r
     \<and> TotalExecutionTime r \<le> LastTimestamp r - T0 \<and> LastTimestamp r \<le> t"

text \<open>
  The events that bring a test named \<open>k\<close> back: a new run of it, which replaces its
  record in \<^verbatim>\<open>allTests\<close>, and a pause or a continue of it, which clear \<^verbatim>\<open>AssumedStopped\<close>.
\<close>

definition revives :: "string \<Rightarrow> Event \<Rightarrow> bool" where
  "revives k e \<longleftrightarrow>
     Test e = k \<and> (Action e = ''run'' \<or> Action e = ''pause'' \<or> Action e = ''cont'')"

text \<open>
  The record at \<open>x\<close> is the one of the test named \<open>k\<close>, no other key of the two maps
  leads to it, and it is assumed stopped with the adjusted time \<open>A\<close> and the total time \<open>T\<close>.
\<close>

definition frozen_at :: "addr \<Rightarrow> string \<Rightarrow> int \<Rightarrow> int \<Rightarrow> state \<Rightarrow> bool" where
  "frozen_at x k A T s \<longleftrightarrow>
     x < length (heap s) \<and> map_of (allTests s) k = Some x
     \<and> (\<forall>k'. map_of (runningTests s) k' = Some x \<longrightarrow> k' = k)
     \<and> (\<forall>k'. map_of (allTests s) k' = Some x \<longrightarrow> k' = k)
     \<and> Name (heap s ! x) = k \<and> AssumedStopped (heap s ! x)
     \<and> AdjustedExecutionTime (heap s ! x) = A \<and> TotalExecutionTime (heap s ! x) = T"

text \<open>One turn of the loop of \<^verbatim>\<open>updateRunningTests\<close> when the count is not zero.\<close>

definition update_one :: "int \<Rightarrow> nat \<Rightarrow> addr \<Rightarrow> state \<Rightarrow> state" where
  "update_one t c a s = (if AssumedStopped (deref s a) then s else modify a (advance t c) s)"

section \<open>Properties\<close>

subsection \<open>Evaluation rules\<close>

lemma range_order_single [simp]: "range_order seed [x] = [x]"
  by (cases seed) simp_all

lemmas handler_defs =
  step_def handleRun_def allocate_def handleStop_def handlePause_def handleCont_def startTest_def
  startFirstChild_def updateRunningTests_def updateExecutionTimes_def
  updateExecutionTimesWithCount_def count_running_def with_test_def set_running_def
  delete_running_def modify_def deref_def and_then_def advance_def newRunningTest_def
  resolveParent_def Sub_def duration_div_def wrap64_def minDuration_def maxDuration_def
  init_def Printf_def event_def Let_def Millisecond_def

lemmas reader_defs = adjustedTime_def totalTime_def dormant_def active_def

lemma isSubTest_A [simp]: "isSubTest ''A'' = ([], False)"
  by code_simp

lemma isSubTest_B [simp]: "isSubTest ''B'' = ([], False)"
  by code_simp

lemma isSubTest_P [simp]: "isSubTest ''P'' = ([], False)"
  by code_simp

lemma isSubTest_Pa [simp]: "isSubTest ''P/a'' = (''P'', True)"
  by code_simp

lemma isSubTest_Pa2 [simp]: "isSubTest ''P/a2'' = (''P'', True)"
  by code_simp

lemma isSubTest_C [simp]: "isSubTest ''C'' = ([], False)"
  by code_simp

lemma isSubTest_D [simp]: "isSubTest ''D'' = ([], False)"
  by code_simp

subsection \<open>Arithmetic of durations\<close>

lemma wrap64_id: "minDuration \<le> x \<Longrightarrow> x \<le> maxDuration \<Longrightarrow> wrap64 x = x"
  by (simp add: wrap64_def minDuration_def maxDuration_def)

lemma wrap64_diff_left: "wrap64 (wrap64 x - y) = wrap64 (x - y)"
proof -
  have "(wrap64 x - y + 2 ^ 63) mod 2 ^ 64 = ((x + 2 ^ 63) mod 2 ^ 64 - y) mod (2 ^ 64 :: int)"
    by (simp add: wrap64_def)
  also have "\<dots> = (x + 2 ^ 63 - y) mod 2 ^ 64"
    by (rule mod_diff_left_eq)
  finally show ?thesis by (simp add: wrap64_def algebra_simps)
qed

lemma Sub_range: "minDuration \<le> Sub t u \<and> Sub t u \<le> maxDuration"
  by (simp add: Sub_def minDuration_def maxDuration_def)


lemma div_facts:
  fixes n k :: int
  assumes "0 \<le> n" "0 < k"
  shows "0 \<le> n div k" and "n div k \<le> n" and "k * (n div k) \<le> n" and "n - k * (n div k) \<le> k - 1"
proof -
  show a: "0 \<le> n div k" using assms by (simp add: pos_imp_zdiv_nonneg_iff)
  have m: "n - k * (n div k) = n mod k" by (simp add: minus_mult_div_eq_mod)
  have r: "0 \<le> n mod k" "n mod k < k" using assms by simp_all
  show c: "k * (n div k) \<le> n" using m r by linarith
  show "n - k * (n div k) \<le> k - 1" using m r by linarith
  have "1 * (n div k) \<le> k * (n div k)" using a assms by (intro mult_right_mono) simp_all
  then show "n div k \<le> n" using c by simp
qed

lemma duration_div_trunc:
  assumes "0 < c" "minDuration \<le> d" "d \<le> maxDuration"
  shows "duration_div d (int c) = sgn d * (\<bar>d\<bar> div int c)"
proof -
  have k: "0 < int c" using assms(1) by simp
  have q: "0 \<le> \<bar>d\<bar> div int c" "\<bar>d\<bar> div int c \<le> \<bar>d\<bar>"
    using div_facts(1,2)[OF abs_ge_zero k] by simp_all
  have "minDuration \<le> sgn d * (\<bar>d\<bar> div int c) \<and> sgn d * (\<bar>d\<bar> div int c) \<le> maxDuration"
  proof (cases "d < 0")
    case True
    then show ?thesis using q assms(2,3) by (simp add: minDuration_def maxDuration_def)
  next
    case False
    then show ?thesis using q assms(2,3) by (cases "d = 0") (simp_all add: minDuration_def maxDuration_def)
  qed
  then show ?thesis using k by (simp add: duration_div_def wrap64_id)
qed

lemma share_remainder:
  fixes d :: int and c :: nat
  assumes "0 < c"
  shows "\<bar>d - int c * (sgn d * (\<bar>d\<bar> div int c))\<bar> \<le> int c - 1"
    and "0 \<le> d \<Longrightarrow> int c * (sgn d * (\<bar>d\<bar> div int c)) \<le> d"
proof -
  have k: "0 < int c" using assms by simp
  note f = div_facts(3,4)[OF abs_ge_zero k, of d]
  show "\<bar>d - int c * (sgn d * (\<bar>d\<bar> div int c))\<bar> \<le> int c - 1"
  proof (cases "d < 0")
    case True
    then show ?thesis using f by simp
  next
    case False
    then show ?thesis using f by (cases "d = 0") simp_all
  qed
  show "0 \<le> d \<Longrightarrow> int c * (sgn d * (\<bar>d\<bar> div int c)) \<le> d"
    using f by (cases "d = 0") simp_all
qed

subsection \<open>The store\<close>

lemma heap_modify [simp]: "heap (modify a f s) = (heap s)[a := f (heap s ! a)]"
  and allTests_modify [simp]: "allTests (modify a f s) = allTests s"
  and runningTests_modify [simp]: "runningTests (modify a f s) = runningTests s"
  and printed_modify [simp]: "printed (modify a f s) = printed s"
  by (simp_all add: modify_def)

lemma deref_modify:
  "deref (modify a f s) b = (if a = b \<and> a < length (heap s) then f (deref s a) else deref s b)"
  by (cases "a = b"; cases "a < length (heap s)") (simp_all add: deref_def list_update_beyond)

lemma AssumedStopped_advance [simp]: "AssumedStopped (advance t c r) = AssumedStopped r"
  and Parallel_advance [simp]: "Parallel (advance t c r) = Parallel r"
  and Name_advance [simp]: "Name (advance t c r) = Name r"
  and Parent_advance [simp]: "Parent (advance t c r) = Parent r"
  and Children_advance [simp]: "Children (advance t c r) = Children r"
  and LastTimestamp_advance [simp]: "LastTimestamp (advance t c r) = t"
  by (simp_all add: advance_def)

lemma count_running_active: "count_running s = length (active_addrs s)"
proof -
  have "filter (\<lambda>a. \<not> AssumedStopped (deref s a)) (map snd xs)
        = map snd (filter (\<lambda>(k, a). \<not> AssumedStopped (deref s a)) xs)" for xs :: "(string \<times> addr) list"
    by (induction xs) auto
  then show ?thesis by (simp add: count_running_def active_addrs_def)
qed

lemma update_each_effect:
  assumes "0 < c" and "distinct as" and "\<forall>a\<in>set as. a < length (heap s)"
  shows "\<exists>s'. update_each e c as s = Ok s'
           \<and> runningTests s' = runningTests s \<and> allTests s' = allTests s \<and> printed s' = printed s
           \<and> length (heap s') = length (heap s)
           \<and> (\<forall>a. deref s' a = (if a \<in> set as \<and> \<not> AssumedStopped (deref s a)
                                then advance (Time e) c (deref s a) else deref s a))"
  using assms
proof (induction as arbitrary: s)
  case Nil
  then show ?case by simp
next
  case (Cons b bs)
  define s1 where "s1 = (if AssumedStopped (deref s b) then s else modify b (advance (Time e) c) s)"
  have step: "updateExecutionTimesWithCount b e c s = Ok s1"
    using Cons.prems(1) by (simp add: updateExecutionTimesWithCount_def s1_def)
  have len: "length (heap s1) = length (heap s)" by (simp add: s1_def)
  have d1: "deref s1 a = (if a = b \<and> \<not> AssumedStopped (deref s b) then advance (Time e) c (deref s b) else deref s a)" for a
    using Cons.prems(3) by (auto simp: s1_def deref_modify)
  have "\<exists>s'. update_each e c bs s1 = Ok s'
           \<and> runningTests s' = runningTests s1 \<and> allTests s' = allTests s1 \<and> printed s' = printed s1
           \<and> length (heap s') = length (heap s1)
           \<and> (\<forall>a. deref s' a = (if a \<in> set bs \<and> \<not> AssumedStopped (deref s1 a)
                                then advance (Time e) c (deref s1 a) else deref s1 a))"
    using Cons.prems by (intro Cons.IH) (simp_all add: len)
  then obtain s' where s': "update_each e c bs s1 = Ok s'"
      "runningTests s' = runningTests s1" "allTests s' = allTests s1" "printed s' = printed s1"
      "length (heap s') = length (heap s1)"
      "\<And>a. deref s' a = (if a \<in> set bs \<and> \<not> AssumedStopped (deref s1 a)
                                then advance (Time e) c (deref s1 a) else deref s1 a)"
    by blast
  have maps: "runningTests s1 = runningTests s" "allTests s1 = allTests s" "printed s1 = printed s"
    by (simp_all add: s1_def)
  have "deref s' a = (if a \<in> set (b # bs) \<and> \<not> AssumedStopped (deref s a)
                                then advance (Time e) c (deref s a) else deref s a)" for a
    using Cons.prems(2) by (auto simp: s'(6) d1)
  then show ?case using s' step maps len by (simp add: and_then_def)
qed

subsection \<open>The scenarios\<close>

text \<open>
  Claim C3, as the code has it. For the stream \<^verbatim>\<open>run A@t0\<close>, \<^verbatim>\<open>run B@t0\<close>, \<^verbatim>\<open>finish A@t10\<close>,
  \<^verbatim>\<open>finish B@t10\<close> (10 ms after \<open>t0\<close>; a finish is a pass or a skip), whatever the instant
  \<open>t0\<close>, the packages and the map orders: the two tests share the 10 ms, so the adjusted
  time of each is 5 ms, and the total time of each is 10 ms.
\<close>

theorem scenario_B_concurrent_tests_share:
  "\<exists>s. process [(sd1, event t0 ''run'' ''A'' pa), (sd2, event t0 ''run'' ''B'' pb),
                 (sd3, event (t0 + 10 * Millisecond) (finish_action f1) ''A'' pa'),
                 (sd4, event (t0 + 10 * Millisecond) (finish_action f2) ''B'' pb')] init = Ok s
     \<and> adjustedTime s ''A'' = Some (5 * Millisecond) \<and> adjustedTime s ''B'' = Some (5 * Millisecond)
     \<and> totalTime s ''A'' = Some (10 * Millisecond) \<and> totalTime s ''B'' = Some (10 * Millisecond)"
  by (cases f1; cases f2) (simp_all add: handler_defs reader_defs)

text \<open>
  Claim C3 as it is written fails: at \<open>t0 = 0\<close> the stream does not end in a state where
  the adjusted times of \<open>A\<close> and \<open>B\<close> are 10 ms.
\<close>

theorem scenario_B_adjusted_not_10ms:
  "\<not> (\<exists>s. process [([], event 0 ''run'' ''A'' []), ([], event 0 ''run'' ''B'' []),
                     ([], event (10 * Millisecond) ''pass'' ''A'' []),
                     ([], event (10 * Millisecond) ''pass'' ''B'' [])] init = Ok s
        \<and> adjustedTime s ''A'' = Some (10 * Millisecond)
        \<and> adjustedTime s ''B'' = Some (10 * Millisecond)
        \<and> totalTime s ''A'' = Some (10 * Millisecond)
        \<and> totalTime s ''B'' = Some (10 * Millisecond))"
  by (simp add: handler_defs reader_defs)

text \<open>
  Claim C4. For the stream \<^verbatim>\<open>run P@0\<close>, \<^verbatim>\<open>run P/a@5\<close>, \<^verbatim>\<open>finish P/a@15\<close>, \<^verbatim>\<open>finish P@20\<close>
  (milliseconds after any instant \<open>t0\<close>; a finish is a pass or a skip): when the child
  starts, \<open>P\<close> has an adjusted time of 5 ms and leaves the running tests; when the child
  finishes, \<open>P\<close> is running again with its clock at the child's finish time; at the
  end the adjusted time of \<open>P\<close> is 10 ms and the adjusted time of \<open>P/a\<close> is 10 ms.
\<close>

theorem scenario_C_serial_subtest:
  "(\<exists>s. process [(sd1, event t0 ''run'' ''P'' pa),
                  (sd2, event (t0 + 5 * Millisecond) ''run'' ''P/a'' pb)] init = Ok s
      \<and> adjustedTime s ''P'' = Some (5 * Millisecond) \<and> active s ''P'' = None)
   \<and> (\<exists>s. process [(sd1, event t0 ''run'' ''P'' pa),
                  (sd2, event (t0 + 5 * Millisecond) ''run'' ''P/a'' pb),
                  (sd3, event (t0 + 15 * Millisecond) (finish_action f1) ''P/a'' pa')] init = Ok s
      \<and> adjustedTime s ''P'' = Some (5 * Millisecond)
      \<and> map_option LastTimestamp (active s ''P'') = Some (t0 + 15 * Millisecond))
   \<and> (\<exists>s. process [(sd1, event t0 ''run'' ''P'' pa),
                  (sd2, event (t0 + 5 * Millisecond) ''run'' ''P/a'' pb),
                  (sd3, event (t0 + 15 * Millisecond) (finish_action f1) ''P/a'' pa'),
                  (sd4, event (t0 + 20 * Millisecond) (finish_action f2) ''P'' pb')] init = Ok s
      \<and> adjustedTime s ''P'' = Some (10 * Millisecond)
      \<and> adjustedTime s ''P/a'' = Some (10 * Millisecond))"
  by (cases f1; cases f2) (simp_all add: handler_defs reader_defs)

subsection \<open>The parent that cannot be resolved\<close>

text \<open>
  Claim C6 says that a \<^verbatim>\<open>run\<close> event of a subtest with no known ancestor fails fatally.
  The code does not: in the empty state, where no test is known, the event \<^verbatim>\<open>run P/a\<close>
  returns, and \<open>P/a\<close> is started like a test of the top level. The variable \<^verbatim>\<open>parent\<close>
  still holds the name found by \<^verbatim>\<open>isSubTest\<close> when the search finds nothing, so the test
  \<^verbatim>\<open>parent == ""\<close> that guards the panic of line 143 is false.
\<close>

theorem handleRun_unresolved_parent_returns:
  "handleRun seed (event t ''run'' ''P/a'' p) init =
     Ok \<lparr>heap = [newRunningTest (event t ''run'' ''P/a'' p)], allTests = [(''P/a'', 0)],
         runningTests = [(''P/a'', 0)], printed = []\<rparr>"
  by (simp add: handler_defs)

subsection \<open>The report\<close>

lemmas report_defs =
  selected_def report_def reportLine_def Round_def duration_rem_def resultsToList_def

text \<open>
  Claim C10. The stream \<^verbatim>\<open>run A@0\<close>, \<^verbatim>\<open>run B@0\<close>, \<^verbatim>\<open>pass A@0.8ms\<close>, \<^verbatim>\<open>pass B@0.8ms\<close> ends
  in a state where the adjusted time of \<open>A\<close> (0.4 ms) rounds to 0 ms, its total time
  (0.8 ms) rounds to 1 ms, \<open>A\<close> is among the tests selected for the report, and the report
  panics with a division by zero, before it has printed a line.
\<close>

theorem report_divides_by_zero:
  "\<exists>s. process [([], event 0 ''run'' ''A'' []), ([], event 0 ''run'' ''B'' []),
                 ([], event 800000 ''pass'' ''A'' []),
                 ([], event 800000 ''pass'' ''B'' [])] init = Ok s
     \<and> (\<exists>test. map_of (allTests s) ''A'' = Some test \<and> test \<in> set (selected [] s)
          \<and> Round (AdjustedExecutionTime (deref s test)) Millisecond = 0
          \<and> Round (TotalExecutionTime (deref s test)) Millisecond \<noteq> 0)
     \<and> report [] [] s = (s, Panic DivideByZero)"
  by (simp add: handler_defs report_defs)

text \<open>
  Claim C7 as it is written fails. After \<^verbatim>\<open>run A@0\<close>, \<^verbatim>\<open>run B@1ms\<close>, \<^verbatim>\<open>pass A@5ms\<close>,
  \<^verbatim>\<open>pass B@5ms\<close> the test \<open>A\<close> is selected, with an adjusted time of 3 ms and a total time
  of 5 ms; the line of the report gives the factor 1, and \<^verbatim>\<open>round(total/adjusted)\<close> is 2.
  The report prints this line and the line of \<open>B\<close>, and returns.
\<close>

theorem concurrency_factor_is_not_rounded:
  "\<exists>s. process [([], event 0 ''run'' ''A'' []), ([], event (1 * Millisecond) ''run'' ''B'' []),
                 ([], event (5 * Millisecond) ''pass'' ''A'' []),
                 ([], event (5 * Millisecond) ''pass'' ''B'' [])] init = Ok s
     \<and> (\<exists>test. map_of (allTests s) ''A'' = Some test \<and> test \<in> set (selected [] s)
          \<and> Round (AdjustedExecutionTime (deref s test)) Millisecond = 3 * Millisecond
          \<and> Round (TotalExecutionTime (deref s test)) Millisecond = 5 * Millisecond
          \<and> reportLine (deref s test)
              = Ok (ResultParallel [] ''A'' (3 * Millisecond) (5 * Millisecond) 1)
          \<and> spec_concurrency_factor (5 * Millisecond) (3 * Millisecond) = 2)
     \<and> report [] [] s
          = (s\<lparr>printed := [ResultParallel [] ''A'' (3 * Millisecond) (5 * Millisecond) 1,
                            ResultParallel [] ''B'' (2 * Millisecond) (4 * Millisecond) 2]\<rparr>, Ok ())"
  by (simp add: handler_defs report_defs spec_concurrency_factor_def round_def)

subsection \<open>Events that name an unknown test\<close>

text \<open>
  Claim C8. A pause or finish event whose test is not in \<^verbatim>\<open>runningTests\<close>, and a continue
  event whose test is not in \<^verbatim>\<open>allTests\<close>, only print a warning: the handler returns the
  state it was given with the warning added to what was printed, so the two maps and
  every record are unchanged.
\<close>

theorem unknown_test_event_is_dropped:
  "(map_of (runningTests s) (Test e) = None \<longrightarrow>
      handlePause e s = Ok (s\<lparr>printed := printed s @ [WarnPausedNotFound (Test e)]\<rparr>)
      \<and> handleStop e s = Ok (s\<lparr>printed := printed s @ [WarnStoppedNotFound (Test e)]\<rparr>))
   \<and> (map_of (allTests s) (Test e) = None \<longrightarrow>
      handleCont e s = Ok (s\<lparr>printed := printed s @ [WarnContinuedNotFound (Test e)]\<rparr>))"
  by (simp add: handlePause_def handleStop_def handleCont_def Printf_def)

text \<open>An instance of claim C8: the test \<open>A\<close> in the empty state.\<close>

theorem unknown_test_event_witness:
  "map_of (runningTests init) ''A'' = None \<and> map_of (allTests init) ''A'' = None
   \<and> handlePause (event 3 ''pause'' ''A'' []) init = Ok (init\<lparr>printed := [WarnPausedNotFound ''A'']\<rparr>)
   \<and> handleStop (event 3 ''pass'' ''A'' []) init = Ok (init\<lparr>printed := [WarnStoppedNotFound ''A'']\<rparr>)
   \<and> handleCont (event 3 ''cont'' ''A'' []) init = Ok (init\<lparr>printed := [WarnContinuedNotFound ''A'']\<rparr>)"
  using unknown_test_event_is_dropped[of init "event 3 ''pause'' ''A'' []"]
        unknown_test_event_is_dropped[of init "event 3 ''pass'' ''A'' []"]
        unknown_test_event_is_dropped[of init "event 3 ''cont'' ''A'' []"]
  by (simp add: init_def event_def)

subsection \<open>The handlers as evolutions of the store\<close>

lemma evolves_refl [simp]: "evolves t tg s s"
  by (simp add: evolves_def)

lemma evolves_same_heap: "heap s' = heap s \<Longrightarrow> evolves t tg s s'"
  by (simp add: evolves_def)

lemma evolves_trans: "evolves t tg s s1 \<Longrightarrow> evolves t tg s1 s2 \<Longrightarrow> evolves t tg s s2"
  unfolding evolves_def by (metis rtranclp_trans)

lemma evolves_length: "evolves t tg s s' \<Longrightarrow> length (heap s') = length (heap s)"
  by (simp add: evolves_def)

lemma evolves_modify:
  assumes "a < length (heap s) \<Longrightarrow> record_step t (tg a) a (heap s ! a) (f (heap s ! a))"
  shows "evolves t tg s (modify a f s)"
  unfolding evolves_def
proof (intro conjI allI impI)
  show "length (heap (modify a f s)) = length (heap s)" by simp
  fix b assume b: "b < length (heap s)"
  show "rtranclp (record_step t (tg b) b) (heap s ! b) (heap (modify a f s) ! b)"
  proof (cases "a = b")
    case True
    then show ?thesis using assms b by auto
  next
    case False
    then show ?thesis by simp
  qed
qed

lemma evolves_then_modify:
  assumes "evolves t tg s s1"
    and "a < length (heap s1) \<Longrightarrow> record_step t (tg a) a (heap s1 ! a) (f (heap s1 ! a))"
  shows "evolves t tg s (modify a f s1)"
  using assms(1) evolves_modify[of a s1 t tg f, OF assms(2)] by (rule evolves_trans)

lemma evolves_then_set_running: "evolves t tg s s1 \<Longrightarrow> evolves t tg s (set_running k a s1)"
  by (simp add: evolves_def set_running_def)

lemma evolves_then_delete_running: "evolves t tg s s1 \<Longrightarrow> evolves t tg s (delete_running k s1)"
  by (simp add: evolves_def delete_running_def)

lemma evolves_then_Printf: "evolves t tg s s1 \<Longrightarrow> evolves t tg s (Printf l s1)"
  by (simp add: evolves_def Printf_def)

lemma record_step_mono: "record_step t b a r r' \<Longrightarrow> (b \<Longrightarrow> b') \<Longrightarrow> record_step t b' a r r'"
  by (induction rule: record_step.induct) (auto intro: record_step.intros)

lemma evolves_mono:
  assumes "evolves t tg s s'" and "\<And>a. tg a \<Longrightarrow> tg' a"
  shows "evolves t tg' s s'"
proof -
  have "rtranclp (record_step t (tg a) a) r r' \<Longrightarrow> rtranclp (record_step t (tg' a) a) r r'" for a r r'
    by (rule rtranclp_mono[THEN predicate2D, rotated]) (auto intro: record_step_mono assms(2))
  with assms(1) show ?thesis by (auto simp: evolves_def)
qed

text \<open>A property of records that every write keeps is kept by an evolution of the store.\<close>

lemma evolves_keeps:
  assumes "evolves t tg s s'"
    and "\<And>a r r'. record_step t (tg a) a r r' \<Longrightarrow> P a r \<Longrightarrow> P a r'"
    and "a < length (heap s)" and "P a (heap s ! a)"
  shows "P a (heap s' ! a)"
proof -
  have "rtranclp (record_step t (tg a) a) r r' \<Longrightarrow> P a r \<Longrightarrow> P a r'" for r r'
    by (induction rule: rtranclp_induct) (auto intro: assms(2))
  with assms(1,3,4) show ?thesis by (auto simp: evolves_def)
qed

lemma updateExecutionTimes_cases:
  assumes "updateExecutionTimes rt e s = Ok s1"
  shows "(AssumedStopped (deref s rt) \<and> s1 = s)
       \<or> (\<not> AssumedStopped (deref s rt) \<and> 0 < count_running s
            \<and> s1 = modify rt (advance (Time e) (count_running s)) s)"
  using assms by (auto simp: updateExecutionTimes_def split: if_splits)

lemma updateExecutionTimesWithCount_cases:
  assumes "updateExecutionTimesWithCount rt e c s = Ok s1"
  shows "(AssumedStopped (deref s rt) \<and> s1 = s)
       \<or> (\<not> AssumedStopped (deref s rt) \<and> 0 < c \<and> s1 = modify rt (advance (Time e) c) s)"
  using assms by (auto simp: updateExecutionTimesWithCount_def split: if_splits)

lemma evolves_updateExecutionTimes:
  assumes "updateExecutionTimes rt e s = Ok s1"
  shows "evolves (Time e) tg s s1"
  using updateExecutionTimes_cases[OF assms]
  by (auto simp: deref_def intro!: evolves_modify rs_advance)

lemma evolves_updateExecutionTimesWithCount:
  assumes "updateExecutionTimesWithCount rt e c s = Ok s1"
  shows "evolves (Time e) tg s s1"
  using updateExecutionTimesWithCount_cases[OF assms]
  by (auto simp: deref_def intro!: evolves_modify rs_advance)

lemma maps_updateExecutionTimes:
  assumes "updateExecutionTimes rt e s = Ok s1"
  shows "runningTests s1 = runningTests s \<and> allTests s1 = allTests s \<and> printed s1 = printed s"
  using updateExecutionTimes_cases[OF assms] by auto

lemma maps_updateExecutionTimesWithCount:
  assumes "updateExecutionTimesWithCount rt e c s = Ok s1"
  shows "runningTests s1 = runningTests s \<and> allTests s1 = allTests s \<and> printed s1 = printed s"
  using updateExecutionTimesWithCount_cases[OF assms] by auto

lemma and_then_Ok:
  "and_then r f = Ok y \<longleftrightarrow> (\<exists>x. r = Ok x \<and> f x = Ok y)"
  by (cases r) (simp_all add: and_then_def)

lemma evolves_update_each:
  "update_each e c as s = Ok s' \<Longrightarrow>
     evolves (Time e) tg s s' \<and> runningTests s' = runningTests s \<and> allTests s' = allTests s \<and> printed s' = printed s"
proof (induction as arbitrary: s)
  case Nil
  then show ?case by simp
next
  case (Cons b bs)
  from Cons.prems obtain s1 where s1: "updateExecutionTimesWithCount b e c s = Ok s1"
    and rest: "update_each e c bs s1 = Ok s'"
    by (auto simp: and_then_Ok)
  show ?case
    using Cons.IH[OF rest] evolves_updateExecutionTimesWithCount[OF s1, of tg]
      maps_updateExecutionTimesWithCount[OF s1]
    by (auto intro: evolves_trans)
qed

lemma evolves_update_each_counting:
  "update_each_counting e as s = Ok s' \<Longrightarrow>
     evolves (Time e) tg s s' \<and> runningTests s' = runningTests s \<and> allTests s' = allTests s \<and> printed s' = printed s"
proof (induction as arbitrary: s)
  case Nil
  then show ?case by simp
next
  case (Cons b bs)
  from Cons.prems obtain s1 where s1: "updateExecutionTimes b e s = Ok s1"
    and rest: "update_each_counting e bs s1 = Ok s'"
    by (auto simp: and_then_Ok)
  show ?case
    using Cons.IH[OF rest] evolves_updateExecutionTimes[OF s1, of tg]
      maps_updateExecutionTimes[OF s1]
    by (auto intro: evolves_trans)
qed

lemma evolves_updateRunningTests:
  "updateRunningTests e s = Ok s' \<Longrightarrow>
     evolves (Time e) tg s s' \<and> runningTests s' = runningTests s \<and> allTests s' = allTests s \<and> printed s' = printed s"
  unfolding updateRunningTests_def by (rule evolves_update_each)

lemma record_step_Name: "record_step t b a r r' \<Longrightarrow> Name r' = Name r"
  by (induction rule: record_step.induct) simp_all

lemma record_step_parent_below:
  "record_step t b a r r' \<Longrightarrow> (\<forall>p. Parent r = Some p \<longrightarrow> p < a) \<Longrightarrow> (\<forall>p. Parent r' = Some p \<longrightarrow> p < a)"
  by (induction rule: record_step.induct) simp_all

lemma evolves_Name:
  assumes "evolves t tg s s'" and "a < length (heap s)"
  shows "Name (heap s' ! a) = Name (heap s ! a)"
proof (rule evolves_keeps[OF assms(1), where P = "\<lambda>a r. Name r = Name (heap s ! a)"])
  show "Name r = Name (heap s ! a) \<Longrightarrow> Name r' = Name (heap s ! a)"
    if "record_step t (tg a) a r r'" for a r r'
    using record_step_Name[OF that] by simp
qed (simp_all add: assms(2))

lemma evolves_parents_below:
  assumes "evolves t tg s s'" and "parents_below s"
  shows "parents_below s'"
  unfolding parents_below_def
proof (intro allI impI)
  fix a p assume a: "a < length (heap s')" and p: "Parent (heap s' ! a) = Some p"
  have a': "a < length (heap s)" using a evolves_length[OF assms(1)] by simp
  have "\<forall>p. Parent (heap s' ! a) = Some p \<longrightarrow> p < a"
  proof (rule evolves_keeps[OF assms(1), where P = "\<lambda>a r. \<forall>p. Parent r = Some p \<longrightarrow> p < a"])
    show "\<forall>p. Parent r = Some p \<longrightarrow> p < a \<Longrightarrow> \<forall>p. Parent r' = Some p \<longrightarrow> p < a"
      if "record_step t (tg a) a r r'" for a r r'
      using that by (rule record_step_parent_below)
    show "a < length (heap s)" by (rule a')
    show "\<forall>p. Parent (heap s ! a) = Some p \<longrightarrow> p < a"
      using assms(2) a' by (simp add: parents_below_def)
  qed
  with p show "p < a" by simp
qed

lemma startFirstChild_effect:
  assumes "startFirstChild e rp s = Ok s'" and "map_of (allTests s) (Test e) = Some n" and "rp < n"
  shows "evolves (Time e) tg s s' \<and> allTests s' = allTests s \<and> printed s' = printed s
         \<and> (\<exists>k. runningTests s' = AList.update (Test e) n (AList.delete k (runningTests s)))"
proof -
  define s1 where "s1 = modify n (\<lambda>r. r\<lparr>Parent := Some rp\<rparr>) s"
  define s2 where "s2 = modify rp (\<lambda>r. r\<lparr>Children := Children r @ [n]\<rparr>) s1"
  from assms(1,2) obtain s3 where s3: "updateExecutionTimes rp e s2 = Ok s3"
    and s': "s' = set_running (Test e) n (delete_running (Name (deref s3 rp)) s3)"
    by (auto simp: startFirstChild_def with_test_def Let_def s1_def s2_def and_then_Ok split: if_splits)
  have e1: "evolves (Time e) tg s s1"
    unfolding s1_def by (rule evolves_modify) (simp add: rs_parent assms(3))
  have e2: "evolves (Time e) tg s s2"
    unfolding s2_def by (rule evolves_then_modify[OF e1]) (simp add: rs_children)
  have e3: "evolves (Time e) tg s s3"
    by (rule evolves_trans[OF e2 evolves_updateExecutionTimes[OF s3]])
  have m: "runningTests s3 = runningTests s" "allTests s3 = allTests s" "printed s3 = printed s"
    using maps_updateExecutionTimes[OF s3] by (simp_all add: s2_def s1_def)
  have "evolves (Time e) tg s s'"
    unfolding s' by (intro evolves_then_set_running evolves_then_delete_running e3)
  moreover have "allTests s' = allTests s" "printed s' = printed s"
    unfolding s' by (simp_all add: set_running_def delete_running_def m)
  moreover have "runningTests s' = AList.update (Test e) n (AList.delete (Name (deref s3 rp)) (runningTests s))"
    unfolding s' by (simp add: set_running_def delete_running_def m)
  ultimately show ?thesis by blast
qed

lemma stopSibling_effect:
  assumes "stopSibling fuel e rt ps parent s = Ok (b, s')"
    and "map_of (allTests s) (Test e) = Some n" and "ps < n" and "n < length (heap s)"
    and "parents_below s"
  shows "evolves (Time e) tg s s' \<and> allTests s' = allTests s \<and> printed s' = printed s
         \<and> (if b then runningTests s' = AList.update (Test e) n (runningTests s) else s' = s)"
  using assms
proof (induction fuel arbitrary: ps)
  case 0
  then show ?case by simp
next
  case (Suc fuel)
  show ?case
  proof (cases "Parent (deref s ps)")
    case None
    with Suc.prems(1) show ?thesis by simp
  next
    case (Some p)
    have p: "p < ps" using Some Suc.prems(3,4,5) by (auto simp: parents_below_def deref_def)
    show ?thesis
    proof (cases "Name (deref s p) = parent \<and> \<not> Parallel (deref s rt) \<and> \<not> AssumedStopped (deref s rt)")
      case True
      define s2 where "s2 = (\<lambda>s1. modify rt (\<lambda>r. r\<lparr>AssumedStopped := True\<rparr>) s1)"
      from Suc.prems(1) Some True obtain s1 where s1: "updateExecutionTimes rt e s = Ok s1"
        and r: "with_test (s2 s1) (Test e) (\<lambda>test.
                let s3 = modify test (\<lambda>r. r\<lparr>Parent := Some p\<rparr>) (s2 s1);
                    s4 = modify p (\<lambda>r. r\<lparr>Children := Children r @ [test]\<rparr>) s3
                in Ok (True, set_running (Test e) test s4)) = Ok (b, s')"
        by (auto simp: and_then_Ok s2_def Let_def)
      have m: "runningTests s1 = runningTests s" "allTests s1 = allTests s" "printed s1 = printed s"
        using maps_updateExecutionTimes[OF s1] by simp_all
      have s1eq: "s1 = modify rt (advance (Time e) (count_running s)) s"
        using updateExecutionTimes_cases[OF s1] True by simp
      from r have b: "b" and s': "s' = set_running (Test e) n
            (modify p (\<lambda>r. r\<lparr>Children := Children r @ [n]\<rparr>)
              (modify n (\<lambda>r. r\<lparr>Parent := Some p\<rparr>) (s2 s1)))"
        using Suc.prems(2) by (auto simp: with_test_def m s2_def Let_def)
      have e1: "evolves (Time e) tg s s1" by (rule evolves_updateExecutionTimes[OF s1])
      have e2: "evolves (Time e) tg s (s2 s1)"
        unfolding s2_def
      proof (rule evolves_then_modify[OF e1])
        assume "rt < length (heap s1)"
        then have "heap s1 ! rt = advance (Time e) (count_running s) (heap s ! rt)"
          by (simp add: s1eq)
        then show "record_step (Time e) (tg rt) rt (heap s1 ! rt) ((heap s1 ! rt)\<lparr>AssumedStopped := True\<rparr>)"
          using True by (intro rs_stop) (simp_all add: deref_def)
      qed
      have e3: "evolves (Time e) tg s (modify n (\<lambda>r. r\<lparr>Parent := Some p\<rparr>) (s2 s1))"
        by (rule evolves_then_modify[OF e2]) (use p Suc.prems(3) in \<open>simp add: rs_parent\<close>)
      have e4: "evolves (Time e) tg s (modify p (\<lambda>r. r\<lparr>Children := Children r @ [n]\<rparr>)
              (modify n (\<lambda>r. r\<lparr>Parent := Some p\<rparr>) (s2 s1)))"
        by (rule evolves_then_modify[OF e3]) (simp add: rs_children)
      have "evolves (Time e) tg s s'"
        unfolding s' by (intro evolves_then_set_running e4)
      moreover have "allTests s' = allTests s" "printed s' = printed s"
        "runningTests s' = AList.update (Test e) n (runningTests s)"
        unfolding s' by (simp_all add: set_running_def s2_def m)
      ultimately show ?thesis using b by simp
    next
      case False
      show ?thesis
      proof (cases "Parent (deref s p) = None")
        case True
        with Suc.prems(1) Some False show ?thesis by simp
      next
        case nonroot: False
        with Suc.prems(1) Some False
        have rec: "stopSibling fuel e rt p parent s = Ok (b, s')" by simp
        have "p < n" using p Suc.prems(3) by simp
        then show ?thesis
          by (rule Suc.IH[OF rec Suc.prems(2) _ Suc.prems(4,5)])
      qed
    qed
  qed
qed

lemma map_of_update: "map_of (AList.update k v al) k' = (if k' = k then Some v else map_of al k')"
  by (simp add: update_conv')
lemma map_of_delete': "map_of (AList.delete k al) k' = (if k' = k then None else map_of al k')"
  by (simp add: delete_conv')
lemma set_range_order [simp]: "set (range_order seed xs) = set xs"
proof (induction seed xs rule: range_order.induct)
  case (3 p seed x xs)
  define i where "i = p mod Suc (length xs)"
  define l where "l = x # xs"
  have i: "i < length l" by (simp add: i_def l_def)
  have "set (range_order (p # seed) l) = insert (l ! i) (set (take i l @ drop (Suc i) l))"
    using 3 unfolding l_def i_def by simp
  also have "\<dots> = set (take i l @ l ! i # drop (Suc i) l)" by simp
  also have "\<dots> = set l" by (simp only: id_take_nth_drop[OF i, symmetric])
  finally show ?case by (simp add: l_def)
qed simp_all
lemma wf_maps_running:
  "wf_maps s \<Longrightarrow> map_of (runningTests s) k = Some a \<Longrightarrow> a < length (heap s)"
  by (auto simp: wf_maps_def list_all_iff dest!: map_of_SomeD)

lemma wf_maps_all:
  "wf_maps s \<Longrightarrow> map_of (allTests s) k = Some a \<Longrightarrow> a < length (heap s)"
  by (auto simp: wf_maps_def list_all_iff dest!: map_of_SomeD)

lemma stopSiblings_effect:
  assumes "stopSiblings e parent rts s = Ok (b, s')"
    and "map_of (allTests s) (Test e) = Some n" and "\<And>rt. rt \<in> set rts \<Longrightarrow> rt < n"
    and "n < length (heap s)" and "parents_below s"
  shows "evolves (Time e) tg s s' \<and> allTests s' = allTests s \<and> printed s' = printed s
         \<and> (if b then runningTests s' = AList.update (Test e) n (runningTests s) else s' = s)"
  using assms(1,3)
proof (induction rts)
  case Nil
  then show ?case by simp
next
  case (Cons rt rts)
  from Cons.prems(1) obtain b1 s1 where one: "stopSibling (length (heap s)) e rt rt parent s = Ok (b1, s1)"
    and rest: "(if b1 then Ok (True, s1) else stopSiblings e parent rts s1) = Ok (b, s')"
    by (auto simp: and_then_Ok)
  have rt: "rt < n" using Cons.prems(2) by simp
  note eff = stopSibling_effect[OF one assms(2) rt assms(4,5), of tg]
  show ?case
  proof (cases b1)
    case True
    with rest eff show ?thesis by auto
  next
    case False
    with eff have "s1 = s" by simp
    with rest False have "stopSiblings e parent rts s = Ok (b, s')" by simp
    then show ?thesis using Cons.prems(2) by (intro Cons.IH) simp_all
  qed
qed

lemma startTest_effect:
  assumes "startTest e s = Ok s'" and "map_of (allTests s) (Test e) = Some n"
  shows "evolves (Time e) tg s s' \<and> allTests s' = allTests s \<and> printed s' = printed s
         \<and> runningTests s' = AList.update (Test e) n (runningTests s)"
proof -
  from assms(1) obtain s1 where s1: "updateRunningTests e s = Ok s1"
    and r: "with_test s1 (Test e) (\<lambda>test. Ok (set_running (Test e) test s1)) = Ok s'"
    by (auto simp: startTest_def and_then_Ok)
  note eff = evolves_updateRunningTests[OF s1, of tg]
  from r eff assms(2) have s': "s' = set_running (Test e) n s1"
    by (simp add: with_test_def)
  have "evolves (Time e) tg s s'" unfolding s' using eff by (intro evolves_then_set_running) simp
  then show ?thesis using eff unfolding s' by (simp add: set_running_def)
qed

lemma allocate_facts:
  "heap (allocate e s) = heap s @ [newRunningTest e]"
  "allTests (allocate e s) = AList.update (Test e) (length (heap s)) (allTests s)"
  "runningTests (allocate e s) = runningTests s"
  "printed (allocate e s) = printed s"
  "map_of (allTests (allocate e s)) (Test e) = Some (length (heap s))"
  by (simp_all add: allocate_def map_of_update)

lemma parents_below_allocate: "parents_below s \<Longrightarrow> parents_below (allocate e s)"
  by (auto simp: parents_below_def allocate_facts nth_append newRunningTest_def less_Suc_eq)

lemma handleRun_effect:
  assumes "handleRun seed e s = Ok s'" and "wf_maps s" and "parents_below s"
  shows "evolves (Time e) tg (allocate e s) s' \<and> allTests s' = allTests (allocate e s) \<and> printed s' = printed s
         \<and> (\<exists>k. runningTests s' = AList.update (Test e) (length (heap s)) (AList.delete k (runningTests s))
              \<or> runningTests s' = AList.update (Test e) (length (heap s)) (runningTests s))"
proof -
  define sA where "sA = allocate e s"
  define n where "n = length (heap s)"
  have all: "map_of (allTests sA) (Test e) = Some n" by (simp add: sA_def n_def allocate_facts(5))
  have len: "n < length (heap sA)" by (simp add: sA_def n_def allocate_facts)
  have pb: "parents_below sA" unfolding sA_def by (rule parents_below_allocate[OF assms(3)])
  have run: "runningTests sA = runningTests s" "printed sA = printed s" by (simp_all add: sA_def allocate_facts)
  have below: "a < n" if "map_of (runningTests sA) k = Some a" for k a
    using wf_maps_running[OF assms(2)] that by (simp add: run n_def)
  obtain parent0 subtest where sub: "isSubTest (Test e) = (parent0, subtest)" by (cases "isSubTest (Test e)")
  from assms(1) obtain parent where
    body: "(if subtest then
             (case map_of (runningTests sA) parent of
                Some runningParent \<Rightarrow> startFirstChild e runningParent sA
              | None \<Rightarrow>
                  and_then (stopSiblings e parent (map snd (range_order seed (runningTests sA))) sA)
                    (\<lambda>(stopped, s'). if stopped then Ok s' else startTest e s'))
           else startTest e sA) = Ok s'"
    by (auto simp: handleRun_def sub sA_def[symmetric] and_then_Ok Let_def)
  have goal: "evolves (Time e) tg sA s' \<and> allTests s' = allTests sA \<and> printed s' = printed sA
         \<and> (\<exists>k. runningTests s' = AList.update (Test e) n (AList.delete k (runningTests sA))
              \<or> runningTests s' = AList.update (Test e) n (runningTests sA))"
  proof (cases "subtest")
    case False
    with body have "startTest e sA = Ok s'" by simp
    from startTest_effect[OF this all, of tg] show ?thesis by simp
  next
    case True
    show ?thesis
    proof (cases "map_of (runningTests sA) parent")
      case (Some rp)
      with body True have "startFirstChild e rp sA = Ok s'" by simp
      from startFirstChild_effect[OF this all below[OF Some], of tg] show ?thesis by auto
    next
      case None
      with body True obtain b s1 where
        sib: "stopSiblings e parent (map snd (range_order seed (runningTests sA))) sA = Ok (b, s1)"
        and rest: "(if b then Ok s1 else startTest e s1) = Ok s'"
        by (auto simp: and_then_Ok)
      have "rt < n" if "rt \<in> set (map snd (range_order seed (runningTests sA)))" for rt
      proof -
        from that obtain k where "(k, rt) \<in> set (runningTests s)" by (auto simp: run)
        then show ?thesis using assms(2) by (auto simp: wf_maps_def list_all_iff n_def)
      qed
      note eff = stopSiblings_effect[OF sib all this len pb, of tg]
      show ?thesis
      proof (cases b)
        case True
        with rest eff show ?thesis by auto
      next
        case False
        with eff rest have "startTest e sA = Ok s'" by simp
        from startTest_effect[OF this all, of tg] show ?thesis by simp
      qed
    qed
  qed
  then show ?thesis by (simp add: sA_def[symmetric] n_def[symmetric] run)
qed

lemma modify_modify: "modify a g (modify a f s) = modify a (\<lambda>r. g (f r)) s"
  by (cases "a < length (heap s)") (simp_all add: modify_def list_update_beyond)

lemma handlePause_effect:
  assumes "handlePause e s = Ok s'"
  shows "evolves (Time e) (\<lambda>a. map_of (runningTests s) (Test e) = Some a) s s'
         \<and> allTests s' = allTests s
         \<and> (runningTests s' = runningTests s \<or> runningTests s' = AList.delete (Test e) (runningTests s))"
proof (cases "map_of (runningTests s) (Test e)")
  case None
  with assms have "s' = Printf (WarnPausedNotFound (Test e)) s" by (simp add: handlePause_def)
  then show ?thesis by (simp add: Printf_def evolves_same_heap)
next
  case (Some pt)
  define s2 where "s2 = modify pt (\<lambda>r. r\<lparr>Parallel := True, AssumedStopped := False\<rparr>) s"
  from assms Some obtain s3 where s3: "updateRunningTests e s2 = Ok s3"
    and s': "s' = delete_running (Test e) s3"
    by (auto simp: handlePause_def Let_def and_then_Ok s2_def modify_modify)
  note eff = evolves_updateRunningTests[OF s3, of "\<lambda>a. map_of (runningTests s) (Test e) = Some a"]
  have e2: "evolves (Time e) (\<lambda>a. map_of (runningTests s) (Test e) = Some a) s s2"
    unfolding s2_def by (rule evolves_modify) (simp add: Some rs_pause)
  have "evolves (Time e) (\<lambda>a. map_of (runningTests s) (Test e) = Some a) s s'"
    unfolding s' using eff e2 by (intro evolves_then_delete_running) (blast intro: evolves_trans)
  moreover have "allTests s' = allTests s" "runningTests s' = AList.delete (Test e) (runningTests s)"
    unfolding s' using eff by (simp_all add: delete_running_def s2_def)
  ultimately show ?thesis by simp
qed

lemma handleCont_effect:
  assumes "handleCont e s = Ok s'"
  shows "evolves (Time e) (\<lambda>a. map_of (allTests s) (Test e) = Some a) s s'
         \<and> allTests s' = allTests s
         \<and> (runningTests s' = runningTests s
             \<or> (\<exists>test. map_of (allTests s) (Test e) = Some test
                   \<and> runningTests s' = AList.update (Test e) test (runningTests s)))"
proof (cases "map_of (allTests s) (Test e)")
  case None
  with assms have "s' = Printf (WarnContinuedNotFound (Test e)) s" by (simp add: handleCont_def)
  then show ?thesis by (simp add: Printf_def evolves_same_heap)
next
  case (Some test)
  let ?tg = "\<lambda>a. map_of (allTests s) (Test e) = Some a"
  from assms Some obtain s1 where s1: "update_each_counting e (map snd (runningTests s)) s = Ok s1"
    and s': "s' = set_running (Test e) test
                    (modify test (\<lambda>r. r\<lparr>AssumedStopped := False\<rparr>)
                      (modify test (\<lambda>r. r\<lparr>LastTimestamp := Time e\<rparr>) s1))"
    by (auto simp: handleCont_def Let_def and_then_Ok)
  note eff = evolves_update_each_counting[OF s1, of ?tg]
  have e1: "evolves (Time e) ?tg s s1" using eff by simp
  have e2: "evolves (Time e) ?tg s (modify test (\<lambda>r. r\<lparr>LastTimestamp := Time e\<rparr>) s1)"
    by (rule evolves_then_modify[OF e1]) (simp add: rs_last)
  have e3: "evolves (Time e) ?tg s (modify test (\<lambda>r. r\<lparr>AssumedStopped := False\<rparr>)
                      (modify test (\<lambda>r. r\<lparr>LastTimestamp := Time e\<rparr>) s1))"
    by (rule evolves_then_modify[OF e2]) (simp add: Some rs_cont)
  have "evolves (Time e) ?tg s s'" unfolding s' by (intro evolves_then_set_running e3)
  moreover have "allTests s' = allTests s" "runningTests s' = AList.update (Test e) test (runningTests s)"
    unfolding s' using eff by (simp_all add: set_running_def)
  ultimately show ?thesis using Some by simp
qed

lemma handleStop_effect:
  assumes "handleStop e s = Ok s'"
  shows "evolves (Time e) tg s s' \<and> allTests s' = allTests s
         \<and> (runningTests s' = runningTests s
             \<or> runningTests s' = AList.delete (Test e) (runningTests s)
             \<or> (\<exists>test parent. map_of (runningTests s) (Test e) = Some test
                   \<and> Parent (deref s test) = Some parent
                   \<and> runningTests s' = AList.delete (Test e)
                        (AList.update (Name (deref s parent)) parent (runningTests s))))"
proof (cases "map_of (runningTests s) (Test e)")
  case None
  with assms have "s' = Printf (WarnStoppedNotFound (Test e)) s" by (simp add: handleStop_def)
  then show ?thesis by (simp add: Printf_def evolves_same_heap)
next
  case (Some test)
  show ?thesis
  proof (cases "Parent (deref s test)")
    case None
    with assms Some obtain s1 where s1: "updateRunningTests e s = Ok s1"
      and s': "s' = delete_running (Test e) s1"
      by (auto simp: handleStop_def and_then_Ok)
    note eff = evolves_updateRunningTests[OF s1, of tg]
    have "evolves (Time e) tg s s'" unfolding s' using eff by (intro evolves_then_delete_running) simp
    then show ?thesis unfolding s' using eff by (simp add: delete_running_def)
  next
    case (Some parent)
    note par = Some
    note run = \<open>map_of (runningTests s) (Test e) = Some test\<close>
    show ?thesis
    proof (cases "length (Children (deref s parent)) = 1")
      case True
      with assms run par obtain s1 where s1: "updateExecutionTimes test e s = Ok s1"
        and s': "s' = delete_running (Test e)
                  (modify parent (\<lambda>r. r\<lparr>LastTimestamp := Time e\<rparr>)
                    (set_running (Name (deref (modify parent (\<lambda>r. r\<lparr>Children := []\<rparr>) s1) parent)) parent
                      (modify parent (\<lambda>r. r\<lparr>Children := []\<rparr>) s1)))"
        by (auto simp: handleStop_def and_then_Ok Let_def)
      have e1: "evolves (Time e) tg s s1" by (rule evolves_updateExecutionTimes[OF s1])
      note m = maps_updateExecutionTimes[OF s1]
      have nm: "Name (deref (modify parent (\<lambda>r. r\<lparr>Children := []\<rparr>) s1) parent) = Name (deref s parent)"
        using updateExecutionTimes_cases[OF s1] by (auto simp: deref_modify)
      have e2: "evolves (Time e) tg s (modify parent (\<lambda>r. r\<lparr>Children := []\<rparr>) s1)"
        by (rule evolves_then_modify[OF e1]) (simp add: rs_children)
      have e3: "evolves (Time e) tg s (modify parent (\<lambda>r. r\<lparr>LastTimestamp := Time e\<rparr>)
                    (set_running (Name (deref s parent)) parent
                      (modify parent (\<lambda>r. r\<lparr>Children := []\<rparr>) s1)))"
        by (rule evolves_then_modify[OF evolves_then_set_running[OF e2]]) (simp add: rs_last)
      have "evolves (Time e) tg s s'"
        unfolding s' nm by (intro evolves_then_delete_running e3)
      moreover have "allTests s' = allTests s"
        "runningTests s' = AList.delete (Test e) (AList.update (Name (deref s parent)) parent (runningTests s))"
        unfolding s' nm using m by (simp_all add: delete_running_def set_running_def)
      ultimately show ?thesis using run par by blast
    next
      case False
      with assms run par obtain s1 where
        s1: "(if \<not> AssumedStopped (deref s test) then updateRunningTests e s else Ok s) = Ok s1"
        and s': "s' = delete_running (Test e)
                   (modify parent (\<lambda>r. r\<lparr>Children := remove1 test (Children r)\<rparr>) s1)"
        by (auto simp: handleStop_def and_then_Ok Let_def split: if_splits)
      have e1: "evolves (Time e) tg s s1 \<and> runningTests s1 = runningTests s \<and> allTests s1 = allTests s"
        using s1 evolves_updateRunningTests[of e s s1 tg] by (auto split: if_splits)
      have e2: "evolves (Time e) tg s (modify parent (\<lambda>r. r\<lparr>Children := remove1 test (Children r)\<rparr>) s1)"
        by (rule evolves_then_modify) (simp_all add: e1 rs_children)
      have "evolves (Time e) tg s s'" unfolding s' by (intro evolves_then_delete_running e2)
      then show ?thesis unfolding s' using e1 by (simp add: delete_running_def)
    qed
  qed
qed

lemma list_all_update:
  "list_all P al \<Longrightarrow> P (k, v) \<Longrightarrow> list_all P (AList.update k v al)"
  by (induction al) auto

lemma list_all_delete: "list_all P al \<Longrightarrow> list_all P (AList.delete k al)"
  by (induction al) auto

lemma wf_maps_handleRun:
  assumes "handleRun seed e s = Ok s'" and "wf_maps s" and "parents_below s"
  shows "wf_maps s'"
proof -
  note eff = handleRun_effect[OF assms, of "\<lambda>_. False"]
  have len: "length (heap s') = Suc (length (heap s))"
    using eff evolves_length[of "Time e" "\<lambda>_. False" "allocate e s" s'] by (simp add: allocate_facts)
  have w: "list_all (\<lambda>(k, a). a < Suc (length (heap s))) (runningTests s)"
    "list_all (\<lambda>(k, a). a < Suc (length (heap s))) (allTests s)"
    using assms(2) by (auto simp: wf_maps_def list_all_iff)
  have "list_all (\<lambda>(k, a). a < Suc (length (heap s))) (allTests s')"
    using eff w(2) by (simp add: allocate_facts list_all_update)
  moreover have "list_all (\<lambda>(k, a). a < Suc (length (heap s))) (runningTests s')"
    using eff w(1) by (auto simp: list_all_update list_all_delete)
  ultimately show ?thesis by (simp add: wf_maps_def len)
qed

lemma wf_maps_handlePause:
  assumes "handlePause e s = Ok s'" and "wf_maps s"
  shows "wf_maps s'"
  using handlePause_effect[OF assms(1)] assms(2)
    evolves_length[of "Time e" "\<lambda>a. map_of (runningTests s) (Test e) = Some a" s s']
  by (auto simp: wf_maps_def list_all_delete)

lemma wf_maps_handleCont:
  assumes "handleCont e s = Ok s'" and "wf_maps s"
  shows "wf_maps s'"
proof -
  note eff = handleCont_effect[OF assms(1)]
  have len: "length (heap s') = length (heap s)" using eff by (auto dest: evolves_length)
  from eff consider "runningTests s' = runningTests s"
    | test where "map_of (allTests s) (Test e) = Some test"
        "runningTests s' = AList.update (Test e) test (runningTests s)"
    by blast
  then have "list_all (\<lambda>(k, a). a < length (heap s)) (runningTests s')"
  proof cases
    case 1
    then show ?thesis using assms(2) by (simp add: wf_maps_def)
  next
    case 2
    have "test < length (heap s)" by (rule wf_maps_all[OF assms(2) 2(1)])
    then show ?thesis using assms(2) by (simp add: 2(2) wf_maps_def list_all_update)
  qed
  then show ?thesis using eff assms(2) by (simp add: wf_maps_def len)
qed

lemma wf_maps_handleStop:
  assumes "handleStop e s = Ok s'" and "wf_maps s" and "parents_below s"
  shows "wf_maps s'"
proof -
  note eff = handleStop_effect[OF assms(1), of "\<lambda>_. False"]
  have len: "length (heap s') = length (heap s)" using eff by (auto dest: evolves_length)
  have par: "parent < length (heap s)"
    if "map_of (runningTests s) (Test e) = Some test" "Parent (deref s test) = Some parent" for test parent
  proof -
    have t: "test < length (heap s)" using wf_maps_running[OF assms(2) that(1)] .
    then have "parent < test" using assms(3) that(2) by (auto simp: parents_below_def deref_def)
    with t show ?thesis by simp
  qed
  from eff consider "runningTests s' = runningTests s"
    | "runningTests s' = AList.delete (Test e) (runningTests s)"
    | test parent where "map_of (runningTests s) (Test e) = Some test"
        "Parent (deref s test) = Some parent"
        "runningTests s' = AList.delete (Test e)
                        (AList.update (Name (deref s parent)) parent (runningTests s))"
    by blast
  then have "list_all (\<lambda>(k, a). a < length (heap s)) (runningTests s')"
  proof cases
    case 1
    then show ?thesis using assms(2) by (simp add: wf_maps_def)
  next
    case 2
    then show ?thesis using assms(2) by (simp add: wf_maps_def list_all_delete)
  next
    case 3
    have "parent < length (heap s)" by (rule par[OF 3(1,2)])
    then show ?thesis using assms(2) by (simp add: 3(3) wf_maps_def list_all_update list_all_delete)
  qed
  then show ?thesis using eff assms(2) by (simp add: wf_maps_def len)
qed

lemma step_cases:
  assumes "step seed e s = Ok s'"
  obtains (skip) "s' = s"
    | (run) "Action e = ''run''" "handleRun seed e s = Ok s'"
    | (pause) "Action e = ''pause''" "handlePause e s = Ok s'"
    | (cont) "Action e = ''cont''" "handleCont e s = Ok s'"
    | (stop) "handleStop e s = Ok s'"
proof (cases "Test e = []")
  case True
  with assms have "s' = s" by (simp add: step_def)
  then show ?thesis by (rule skip)
next
  case named: False
  show ?thesis
  proof (cases "Action e = ''run''")
    case True
    with named assms show ?thesis by (intro run) (simp_all add: step_def)
  next
    case not_run: False
    show ?thesis
    proof (cases "Action e = ''pause''")
      case True
      with named not_run assms show ?thesis by (intro pause) (simp_all add: step_def)
    next
      case not_pause: False
      show ?thesis
      proof (cases "Action e = ''cont''")
        case True
        with named not_run not_pause assms show ?thesis by (intro cont) (simp_all add: step_def)
      next
        case not_cont: False
        show ?thesis
        proof (cases "Action e = ''pass'' \<or> Action e = ''skip''")
          case True
          with named not_run not_pause not_cont assms have "handleStop e s = Ok s'"
            unfolding step_def by (simp only: if_True if_False)
          then show ?thesis by (rule stop)
        next
          case False
          with named not_run not_pause not_cont assms
          have "(if Action e = ''output'' \<or> Action e = ''start'' then Ok s
                 else Panic (UnknownAction (Action e))) = Ok s'"
            unfolding step_def by (simp only: if_True if_False)
          then have "s' = s" by (simp split: if_splits)
          then show ?thesis by (rule skip)
        qed
      qed
    qed
  qed
qed

lemma step_effect:
  assumes "step seed e s = Ok s'" and "wf_maps s" and "parents_below s"
  shows "wf_maps s' \<and> parents_below s'
         \<and> (\<exists>s0. (s0 = s \<or> s0 = allocate e s) \<and> evolves (Time e) (is_target e s) s0 s')"
proof -
  consider (skip) "s' = s"
    | (run) "Action e = ''run''" "handleRun seed e s = Ok s'"
    | (pause) "Action e = ''pause''" "handlePause e s = Ok s'"
    | (cont) "Action e = ''cont''" "handleCont e s = Ok s'"
    | (stop) "handleStop e s = Ok s'"
    using assms(1) by (rule step_cases)
  then show ?thesis
  proof cases
    case skip
    then show ?thesis using assms by auto
  next
    case run
    note eff = handleRun_effect[OF run(2) assms(2,3), of "is_target e s"]
    have "parents_below s'"
      using eff evolves_parents_below parents_below_allocate[OF assms(3)] by blast
    then show ?thesis using eff wf_maps_handleRun[OF run(2) assms(2,3)] by blast
  next
    case pause
    note eff = handlePause_effect[OF pause(2)]
    have ev: "evolves (Time e) (is_target e s) s s'"
      using eff by (auto intro: evolves_mono simp: is_target_def pause(1))
    then show ?thesis
      using wf_maps_handlePause[OF pause(2) assms(2)] evolves_parents_below[OF ev assms(3)] by blast
  next
    case cont
    note eff = handleCont_effect[OF cont(2)]
    have ev: "evolves (Time e) (is_target e s) s s'"
      using eff by (auto intro: evolves_mono simp: is_target_def cont(1))
    then show ?thesis
      using wf_maps_handleCont[OF cont(2) assms(2)] evolves_parents_below[OF ev assms(3)] by blast
  next
    case stop
    note eff = handleStop_effect[OF stop, of "is_target e s"]
    then have ev: "evolves (Time e) (is_target e s) s s'" by simp
    then show ?thesis
      using wf_maps_handleStop[OF stop assms(2,3)] evolves_parents_below[OF ev assms(3)] by blast
  qed
qed

lemma evolves_list_all:
  assumes "evolves t tg s s'"
    and "\<And>a r r'. record_step t (tg a) a r r' \<Longrightarrow> P r \<Longrightarrow> P r'"
    and "list_all P (heap s)"
  shows "list_all P (heap s')"
  unfolding list_all_length
proof (intro allI impI)
  fix a assume "a < length (heap s')"
  then have a: "a < length (heap s)" using evolves_length[OF assms(1)] by simp
  show "P (heap s' ! a)"
    by (rule evolves_keeps[OF assms(1), where P = "\<lambda>a. P"])
       (use assms(2,3) a in \<open>auto simp: list_all_length\<close>)
qed

lemma step_list_all:
  assumes "step seed e s = Ok s'" and "wf_maps s" and "parents_below s"
    and "\<And>b a r r'. record_step (Time e) b a r r' \<Longrightarrow> P r \<Longrightarrow> P r'"
    and "P (newRunningTest e)"
    and "list_all P (heap s)"
  shows "list_all P (heap s')"
proof -
  from step_effect[OF assms(1,2,3)] obtain s0 where
    s0: "s0 = s \<or> s0 = allocate e s" and ev: "evolves (Time e) (is_target e s) s0 s'"
    by blast
  have "list_all P (heap s0)" using s0 assms(5,6) by (auto simp: allocate_facts)
  show ?thesis
  proof (rule evolves_list_all[OF ev])
    show "P r \<Longrightarrow> P r'" if "record_step (Time e) (is_target e s a) a r r'" for a r r'
      using that by (rule assms(4))
    show "list_all P (heap s0)" by fact
  qed
qed

subsection \<open>Parallel and assumed stopped\<close>



lemma init_wf: "wf_maps init" "parents_below init"
  by (simp_all add: wf_maps_def parents_below_def init_def)

subsection \<open>Total and adjusted times\<close>

lemma times_ok_mono: "times_ok T0 t r \<Longrightarrow> t \<le> t' \<Longrightarrow> times_ok T0 t' r"
  by (simp add: times_ok_def)

lemma advance_times_ok:
  assumes "times_ok T0 t r" and "t - T0 \<le> maxDuration" and "0 < c"
  shows "times_ok T0 t (advance t c r)"
proof -
  define d where "d = t - LastTimestamp r"
  have r: "0 \<le> AdjustedExecutionTime r" "AdjustedExecutionTime r \<le> TotalExecutionTime r"
    "TotalExecutionTime r \<le> LastTimestamp r - T0" "LastTimestamp r \<le> t"
    using assms(1) by (simp_all add: times_ok_def)
  have d: "0 \<le> d" "d \<le> maxDuration" "TotalExecutionTime r + d \<le> maxDuration"
    using r assms(2) by (simp_all add: d_def)
  have sub: "Sub t (LastTimestamp r) = d"
    using d by (simp add: Sub_def d_def minDuration_def maxDuration_def)
  have q: "duration_div d (int c) = sgn d * (\<bar>d\<bar> div int c)"
    using d by (intro duration_div_trunc assms(3)) (simp_all add: minDuration_def)
  have k: "0 < int c" using assms(3) by simp
  have "duration_div d (int c) = d div int c"
    using d(1) q by (cases "d = 0") simp_all
  then have q2: "0 \<le> duration_div d (int c)" "duration_div d (int c) \<le> d"
    using div_facts(1,2)[OF d(1) k] by simp_all
  have w1: "wrap64 (TotalExecutionTime r + d) = TotalExecutionTime r + d"
    using r d by (intro wrap64_id) (simp_all add: minDuration_def)
  have w2: "wrap64 (AdjustedExecutionTime r + duration_div d (int c)) = AdjustedExecutionTime r + duration_div d (int c)"
    using r d q2 by (intro wrap64_id) (simp_all add: minDuration_def)
  show ?thesis
    using r q2 by (simp add: times_ok_def advance_def sub w1 w2) (simp add: d_def)
qed

lemma record_step_times:
  assumes "record_step t b a r r'" and "times_ok T0 t r" and "t - T0 \<le> maxDuration"
  shows "times_ok T0 t r'"
  using assms
proof (induction rule: record_step.induct)
  case (rs_advance r c)
  then show ?case by (intro advance_times_ok)
next
  case (rs_last r)
  then show ?case by (simp add: times_ok_def)
qed (simp_all add: times_ok_def)

lemma process_times:
  "process evs s = Ok s' \<Longrightarrow> wf_maps s \<Longrightarrow> parents_below s \<Longrightarrow> list_all (times_ok T0 t) (heap s)
   \<Longrightarrow> sorted (t # map (\<lambda>x. Time (snd x)) evs) \<Longrightarrow> T0 \<le> t
   \<Longrightarrow> list_all (\<lambda>x. Time (snd x) - T0 \<le> maxDuration) evs
   \<Longrightarrow> \<exists>t'. list_all (times_ok T0 t') (heap s')"
proof (induction evs arbitrary: s t)
  case Nil
  then show ?case by auto
next
  case (Cons x evs)
  obtain seed e where x: "x = (seed, e)" by (cases x)
  from Cons.prems(1) obtain s1 where s1: "step seed e s = Ok s1" and rest: "process evs s1 = Ok s'"
    by (auto simp: x and_then_Ok)
  have t: "t \<le> Time e" "Time e - T0 \<le> maxDuration" "T0 \<le> Time e"
    using Cons.prems(5,6,7) by (simp_all add: x)
  have "list_all (times_ok T0 (Time e)) (heap s1)"
  proof (rule step_list_all[OF s1 Cons.prems(2,3)])
    show "times_ok T0 (Time e) r \<Longrightarrow> times_ok T0 (Time e) r'" if "record_step (Time e) b a r r'" for b a r r'
      using record_step_times[OF that _ t(2)] by simp
    show "times_ok T0 (Time e) (newRunningTest e)"
      using t(3) by (simp add: times_ok_def newRunningTest_def)
    show "list_all (times_ok T0 (Time e)) (heap s)"
      using Cons.prems(4) t(1) by (auto simp: list_all_iff intro: times_ok_mono)
  qed
  moreover have "sorted (Time e # map (\<lambda>x. Time (snd x)) evs)"
    using Cons.prems(5) by (simp add: x)
  moreover have "list_all (\<lambda>x. Time (snd x) - T0 \<le> maxDuration) evs"
    using Cons.prems(7) by simp
  ultimately show ?case
    using rest step_effect[OF s1 Cons.prems(2,3)] t(3) by (intro Cons.IH[of s1 "Time e"]) auto
qed

text \<open>
  Claim C2, as the code has it. When the timestamps of the events do not decrease and all
  lie within \<open>maxDuration\<close> (about 292 years) of the first one, every record has, after
  every prefix of the stream, a total time that is at least its adjusted time.
\<close>

theorem total_at_least_adjusted:
  assumes "process (take n evs) init = Ok s"
    and "sorted (map (\<lambda>x. Time (snd x)) evs)"
    and "list_all (\<lambda>x. Time (snd x) - Time (snd (hd evs)) \<le> maxDuration) evs"
  shows "list_all (\<lambda>r. AdjustedExecutionTime r \<le> TotalExecutionTime r) (heap s)"
proof (cases evs)
  case Nil
  with assms(1) show ?thesis by (auto simp: init_def)
next
  case (Cons x xs)
  define T0 where "T0 = Time (snd x)"
  have srt: "sorted (T0 # map (\<lambda>x. Time (snd x)) (take n evs))"
  proof -
    have "sorted (map (\<lambda>x. Time (snd x)) (take n evs))"
      using assms(2) by (simp add: take_map[symmetric] sorted_wrt_take)
    moreover have "T0 \<le> Time (snd y)" if "y \<in> set (take n evs)" for y
      using assms(2) that Cons by (auto simp: T0_def dest!: in_set_takeD)
    ultimately show ?thesis by auto
  qed
  have win: "list_all (\<lambda>x. Time (snd x) - T0 \<le> maxDuration) (take n evs)"
    using assms(3) Cons by (auto simp: T0_def list_all_iff dest!: in_set_takeD)
  have "list_all (times_ok T0 T0) (heap init)" by (simp add: init_def)
  from process_times[OF assms(1) init_wf this srt order_refl win]
  obtain t' where "list_all (times_ok T0 t') (heap s)" by blast
  then show ?thesis by (auto simp: list_all_iff times_ok_def)
qed

subsection \<open>Termination\<close>

lemma and_then_Diverge:
  "and_then r f = Diverge \<longleftrightarrow> r = Diverge \<or> (\<exists>x. r = Ok x \<and> f x = Diverge)"
  by (cases r) (simp_all add: and_then_def)

lemma updateExecutionTimes_returns [simp]: "updateExecutionTimes rt e s \<noteq> Diverge"
  by (simp add: updateExecutionTimes_def)

lemma updateExecutionTimesWithCount_returns [simp]: "updateExecutionTimesWithCount rt e c s \<noteq> Diverge"
  by (simp add: updateExecutionTimesWithCount_def)

lemma update_each_returns [simp]: "update_each e c as s \<noteq> Diverge"
  by (induction as arbitrary: s) (simp_all add: and_then_Diverge)

lemma update_each_counting_returns [simp]: "update_each_counting e as s \<noteq> Diverge"
  by (induction as arbitrary: s) (simp_all add: and_then_Diverge)

lemma updateRunningTests_returns [simp]: "updateRunningTests e s \<noteq> Diverge"
  by (simp add: updateRunningTests_def)

lemma with_test_returns: "(\<And>a. f a \<noteq> Diverge) \<Longrightarrow> with_test s k f \<noteq> Diverge"
  by (simp add: with_test_def split: option.splits)

lemma startTest_returns [simp]: "startTest e s \<noteq> Diverge"
  by (simp add: startTest_def and_then_Diverge with_test_returns)

lemma startFirstChild_returns [simp]: "startFirstChild e rp s \<noteq> Diverge"
  by (simp add: startFirstChild_def and_then_Diverge with_test_def Let_def split: option.splits)

lemma handlePause_returns [simp]: "handlePause e s \<noteq> Diverge"
  by (simp add: handlePause_def and_then_Diverge Let_def split: option.splits)

lemma handleCont_returns [simp]: "handleCont e s \<noteq> Diverge"
  by (simp add: handleCont_def and_then_Diverge Let_def split: option.splits)

lemma handleStop_returns [simp]: "handleStop e s \<noteq> Diverge"
  by (simp add: handleStop_def and_then_Diverge Let_def split: option.splits)

lemma resolveParent_returns [simp]: "resolveParent test parent s \<noteq> Diverge"
  by (simp add: resolveParent_def Let_def split: option.splits)

lemma stopSibling_returns:
  assumes "parents_below s" and "ps < fuel" and "ps < length (heap s)"
  shows "stopSibling fuel e rt ps parent s \<noteq> Diverge"
  using assms(2,3)
proof (induction fuel arbitrary: ps)
  case 0
  then show ?case by simp
next
  case (Suc fuel)
  show ?case
  proof (cases "Parent (deref s ps)")
    case None
    then show ?thesis by simp
  next
    case (Some p)
    have p: "p < ps" using Some Suc.prems(2) assms(1) by (auto simp: parents_below_def deref_def)
    then have "stopSibling fuel e rt p parent s \<noteq> Diverge"
      using Suc.prems by (intro Suc.IH) simp_all
    then show ?thesis
      using Some by (simp add: and_then_Diverge with_test_def Let_def split: option.splits)
  qed
qed

lemma stopSiblings_returns:
  assumes "parents_below s" and "\<And>rt. rt \<in> set rts \<Longrightarrow> rt < n"
    and "map_of (allTests s) (Test e) = Some n" and "n < length (heap s)"
  shows "stopSiblings e parent rts s \<noteq> Diverge"
  using assms(2)
proof (induction rts)
  case Nil
  then show ?case by simp
next
  case (Cons rt rts)
  have rt: "rt < n" using Cons.prems by simp
  have one: "stopSibling (length (heap s)) e rt rt parent s \<noteq> Diverge"
    using rt assms(4) by (intro stopSibling_returns assms(1)) simp_all
  have "stopSiblings e parent rts s1 \<noteq> Diverge"
    if "stopSibling (length (heap s)) e rt rt parent s = Ok (False, s1)" for s1
  proof -
    from stopSibling_effect[OF that assms(3) rt assms(4,1), of "\<lambda>_. False"] have "s1 = s" by simp
    then show ?thesis using Cons.prems by (simp add: Cons.IH)
  qed
  with one show ?case by (auto simp: and_then_Diverge)
qed

lemma handleRun_returns:
  assumes "wf_maps s" and "parents_below s"
  shows "handleRun seed e s \<noteq> Diverge"
proof -
  define sA where "sA = allocate e s"
  define n where "n = length (heap s)"
  have all: "map_of (allTests sA) (Test e) = Some n" by (simp add: sA_def n_def allocate_facts(5))
  have len: "n < length (heap sA)" by (simp add: sA_def n_def allocate_facts)
  have pb: "parents_below sA" unfolding sA_def by (rule parents_below_allocate[OF assms(2)])
  have "rt < n" if "rt \<in> set (map snd (range_order seed (runningTests sA)))" for rt
  proof -
    from that obtain k where "(k, rt) \<in> set (runningTests s)" by (auto simp: sA_def allocate_facts)
    then show ?thesis using assms(1) by (auto simp: wf_maps_def list_all_iff n_def)
  qed
  then have "stopSiblings e parent (map snd (range_order seed (runningTests sA))) sA \<noteq> Diverge" for parent
    using pb all len by (intro stopSiblings_returns) simp_all
  then show ?thesis
    by (auto simp: handleRun_def sA_def[symmetric] and_then_Diverge Let_def split: prod.splits option.splits)
qed

lemma step_returns:
  assumes "wf_maps s" and "parents_below s"
  shows "step seed e s \<noteq> Diverge"
  using handleRun_returns[OF assms] by (simp add: step_def)

text \<open>
  The model of \<^verbatim>\<open>stopSibling\<close> has enough fuel: processing a stream from the empty state
  returns or panics, it never diverges.
\<close>

theorem process_returns:
  assumes "wf_maps s" and "parents_below s"
  shows "process evs s \<noteq> Diverge"
  using assms
proof (induction evs arbitrary: s)
  case Nil
  then show ?case by simp
next
  case (Cons x evs)
  obtain seed e where x: "x = (seed, e)" by (cases x)
  have "process evs s1 \<noteq> Diverge" if "step seed e s = Ok s1" for s1
    using step_effect[OF that Cons.prems] by (intro Cons.IH) simp_all
  then show ?case using step_returns[OF Cons.prems, of seed e] by (auto simp: x and_then_Diverge)
qed

subsection \<open>Instances\<close>

lemma isSubTest_Pb [simp]: "isSubTest ''P/b'' = (''P'', True)"
  by code_simp

lemma isSubTest_Pc [simp]: "isSubTest ''P/c'' = (''P'', True)"
  by code_simp

text \<open>
  Claim C2 as it is written fails when a total time overflows. The timestamps (in
  nanoseconds) do not decrease; \<open>A\<close> and \<open>B\<close> run together for more than \<open>maxDuration\<close>,
  so \<^verbatim>\<open>Sub\<close> gives \<open>maxDuration\<close> and the total time of \<open>A\<close> is \<open>maxDuration\<close> while its
  adjusted time is half of it; one nanosecond later the total time wraps around to the
  smallest duration.
\<close>

theorem total_below_adjusted_after_overflow:
  "\<exists>s. process [([], event 0 ''run'' ''A'' []), ([], event 0 ''run'' ''B'' []),
                 ([], event 9223372036854775813 ''pass'' ''B'' []),
                 ([], event 9223372036854775814 ''pass'' ''A'' [])] init = Ok s
     \<and> sorted [0, 0, 9223372036854775813, 9223372036854775814 :: int]
     \<and> adjustedTime s ''A'' = Some 4611686018427387904
     \<and> totalTime s ''A'' = Some (- 9223372036854775808)"
  by (simp add: handler_defs reader_defs)

text \<open>An instance of claim C2: the stream of scenario B.\<close>

theorem total_at_least_adjusted_witness:
  "\<exists>s. process [([], event 0 ''run'' ''A'' []), ([], event 0 ''run'' ''B'' []),
                 ([], event (10 * Millisecond) ''pass'' ''A'' []),
                 ([], event (10 * Millisecond) ''pass'' ''B'' [])] init = Ok s
     \<and> list_all (\<lambda>r. AdjustedExecutionTime r \<le> TotalExecutionTime r) (heap s)"
proof -
  let ?evs = "[([], event 0 ''run'' ''A'' []), ([], event 0 ''run'' ''B'' []),
                 ([], event (10 * Millisecond) ''pass'' ''A'' []),
                 ([], event (10 * Millisecond) ''pass'' ''B'' [])]"
  have "\<exists>s. process (take 4 ?evs) init = Ok s" by (simp add: handler_defs)
  then obtain s where s: "process (take 4 ?evs) init = Ok s" ..
  have h2: "sorted (map (\<lambda>x. Time (snd x)) ?evs)" by (simp add: event_def Millisecond_def)
  have h3: "list_all (\<lambda>x. Time (snd x) - Time (snd (hd ?evs)) \<le> maxDuration) ?evs"
    by (simp add: event_def Millisecond_def maxDuration_def)
  from total_at_least_adjusted[OF s h2 h3] s show ?thesis by auto
qed

subsection \<open>A test assumed stopped stays frozen\<close>

lemma step_maps:
  assumes "step seed e s = Ok s'" and "wf_maps s" and "parents_below s"
  shows "(allTests s' = allTests s
          \<or> (Action e = ''run'' \<and> allTests s' = AList.update (Test e) (length (heap s)) (allTests s)))
       \<and> (\<forall>k a. map_of (runningTests s') k = Some a \<longrightarrow>
             map_of (runningTests s) k = Some a
             \<or> (k = Test e \<and> Action e = ''run'' \<and> a = length (heap s))
             \<or> (k = Test e \<and> Action e = ''cont'' \<and> map_of (allTests s) (Test e) = Some a)
             \<or> (k = Name (deref s a) \<and> a < length (heap s)))"
proof -
  consider (skip) "s' = s"
    | (run) "Action e = ''run''" "handleRun seed e s = Ok s'"
    | (pause) "Action e = ''pause''" "handlePause e s = Ok s'"
    | (cont) "Action e = ''cont''" "handleCont e s = Ok s'"
    | (stop) "handleStop e s = Ok s'"
    using assms(1) by (rule step_cases)
  then show ?thesis
  proof cases
    case skip
    then show ?thesis by simp
  next
    case run
    note eff = handleRun_effect[OF run(2) assms(2,3), of "\<lambda>_. False"]
    then show ?thesis
      using run(1) by (auto simp: allocate_facts map_of_update map_of_delete' split: if_splits)
  next
    case pause
    note eff = handlePause_effect[OF pause(2)]
    then show ?thesis by (auto simp: map_of_delete' split: if_splits)
  next
    case cont
    note eff = handleCont_effect[OF cont(2)]
    then show ?thesis using cont(1) by (auto simp: map_of_update split: if_splits)
  next
    case stop
    note eff = handleStop_effect[OF stop, of "\<lambda>_. False"]
    have par: "parent < length (heap s)"
      if "map_of (runningTests s) (Test e) = Some test" "Parent (deref s test) = Some parent" for test parent
    proof -
      have t: "test < length (heap s)" using wf_maps_running[OF assms(2) that(1)] .
      then have "parent < test" using assms(3) that(2) by (auto simp: parents_below_def deref_def)
      with t show ?thesis by simp
    qed
    from eff consider "runningTests s' = runningTests s"
      | "runningTests s' = AList.delete (Test e) (runningTests s)"
      | test parent where "map_of (runningTests s) (Test e) = Some test"
          "Parent (deref s test) = Some parent"
          "runningTests s' = AList.delete (Test e)
                        (AList.update (Name (deref s parent)) parent (runningTests s))"
      by blast
    then have "\<forall>k a. map_of (runningTests s') k = Some a \<longrightarrow>
             map_of (runningTests s) k = Some a \<or> (k = Name (deref s a) \<and> a < length (heap s))"
    proof cases
      case 1
      then show ?thesis by simp
    next
      case 2
      then show ?thesis by (auto simp: map_of_delete' split: if_splits)
    next
      case 3
      then show ?thesis using par[OF 3(1,2)] by (auto simp: map_of_delete' map_of_update split: if_splits)
    qed
    then show ?thesis using eff by blast
  qed
qed

lemma record_step_frozen:
  assumes "record_step t False a r r'"
    and "Name r = k \<and> AssumedStopped r \<and> AdjustedExecutionTime r = A \<and> TotalExecutionTime r = T"
  shows "Name r' = k \<and> AssumedStopped r' \<and> AdjustedExecutionTime r' = A \<and> TotalExecutionTime r' = T"
  using assms by (induction rule: record_step.induct) simp_all

lemma step_frozen:
  assumes "step seed e s = Ok s'" and "wf_maps s" and "parents_below s"
    and "\<not> revives k e" and "frozen_at x k A T s"
  shows "frozen_at x k A T s'"
proof -
  have x: "x < length (heap s)" and all: "map_of (allTests s) k = Some x"
    and run_key: "\<And>k'. map_of (runningTests s) k' = Some x \<Longrightarrow> k' = k"
    and all_key: "\<And>k'. map_of (allTests s) k' = Some x \<Longrightarrow> k' = k"
    and rec: "Name (heap s ! x) = k \<and> AssumedStopped (heap s ! x)
              \<and> AdjustedExecutionTime (heap s ! x) = A \<and> TotalExecutionTime (heap s ! x) = T"
    using assms(5) by (simp_all add: frozen_at_def)
  have no_target: "\<not> is_target e s x"
    using assms(4) run_key all_key by (auto simp: is_target_def revives_def)
  from step_effect[OF assms(1,2,3)] obtain s0 where
    s0: "s0 = s \<or> s0 = allocate e s" and ev: "evolves (Time e) (is_target e s) s0 s'"
    by blast
  have x0: "x < length (heap s0)" and rec0: "heap s0 ! x = heap s ! x"
    using s0 x by (auto simp: allocate_facts nth_append)
  have rec': "Name (heap s' ! x) = k \<and> AssumedStopped (heap s' ! x)
              \<and> AdjustedExecutionTime (heap s' ! x) = A \<and> TotalExecutionTime (heap s' ! x) = T"
  proof (rule evolves_keeps[OF ev, where a = x and P = "\<lambda>a r. a = x \<longrightarrow> Name r = k \<and> AssumedStopped r
              \<and> AdjustedExecutionTime r = A \<and> TotalExecutionTime r = T", THEN mp])
    show "a = x \<longrightarrow> Name r' = k \<and> AssumedStopped r' \<and> AdjustedExecutionTime r' = A \<and> TotalExecutionTime r' = T"
      if "record_step (Time e) (is_target e s a) a r r'"
        "a = x \<longrightarrow> Name r = k \<and> AssumedStopped r \<and> AdjustedExecutionTime r = A \<and> TotalExecutionTime r = T"
      for a r r'
      using that no_target record_step_frozen[of "Time e" a r r' k A T] by auto
    show "x < length (heap s0)" by (rule x0)
    show "x = x \<longrightarrow> Name (heap s0 ! x) = k \<and> AssumedStopped (heap s0 ! x)
              \<and> AdjustedExecutionTime (heap s0 ! x) = A \<and> TotalExecutionTime (heap s0 ! x) = T"
      using rec rec0 by simp
    show "x = x" by simp
  qed
  have len: "x < length (heap s')" using evolves_length[OF ev] x0 by simp
  note maps = step_maps[OF assms(1,2,3)]
  have all': "map_of (allTests s') k' = Some x \<longleftrightarrow> map_of (allTests s) k' = Some x" for k'
  proof (cases "allTests s' = allTests s")
    case True
    then show ?thesis by simp
  next
    case False
    with maps have r: "Action e = ''run''"
      and u: "allTests s' = AList.update (Test e) (length (heap s)) (allTests s)" by auto
    have ne: "Test e \<noteq> k" using assms(4) r by (simp add: revives_def)
    show ?thesis
    proof (cases "k' = Test e")
      case True
      have "map_of (allTests s) (Test e) \<noteq> Some x" using all_key[of "Test e"] ne by blast
      moreover have "length (heap s) \<noteq> x" using x by simp
      ultimately show ?thesis by (simp add: u map_of_update True)
    next
      case False
      then show ?thesis by (simp add: u map_of_update)
    qed
  qed
  have run': "k' = k" if "map_of (runningTests s') k' = Some x" for k'
  proof -
    from maps have "\<forall>k a. map_of (runningTests s') k = Some a \<longrightarrow>
             map_of (runningTests s) k = Some a
             \<or> (k = Test e \<and> Action e = ''run'' \<and> a = length (heap s))
             \<or> (k = Test e \<and> Action e = ''cont'' \<and> map_of (allTests s) (Test e) = Some a)
             \<or> (k = Name (deref s a) \<and> a < length (heap s))"
      by (rule conjunct2)
    from this[rule_format, OF that] consider "map_of (runningTests s) k' = Some x"
      | "x = length (heap s)"
      | "k' = Test e" "map_of (allTests s) (Test e) = Some x"
      | "k' = Name (deref s x)"
      by blast
    then show ?thesis
    proof cases
      case 1
      then show ?thesis by (rule run_key)
    next
      case 2
      then show ?thesis using x by simp
    next
      case 3
      then show ?thesis using all_key by simp
    next
      case 4
      then show ?thesis using rec by (simp add: deref_def)
    qed
  qed
  have "map_of (allTests s') k = Some x" using all by (simp add: all')
  moreover have "\<forall>k'. map_of (allTests s') k' = Some x \<longrightarrow> k' = k"
    using all_key by (simp add: all')
  moreover have "\<forall>k'. map_of (runningTests s') k' = Some x \<longrightarrow> k' = k"
    using run' by blast
  ultimately show ?thesis
    unfolding frozen_at_def using len rec' by blast
qed

lemma process_frozen:
  "process evs s = Ok s' \<Longrightarrow> wf_maps s \<Longrightarrow> parents_below s
   \<Longrightarrow> list_all (\<lambda>x. \<not> revives k (snd x)) evs \<Longrightarrow> frozen_at x k A T s
   \<Longrightarrow> frozen_at x k A T s'"
proof (induction evs arbitrary: s)
  case Nil
  then show ?case by simp
next
  case (Cons y evs)
  obtain seed e where y: "y = (seed, e)" by (cases y)
  from Cons.prems(1) obtain s1 where s1: "step seed e s = Ok s1" and rest: "process evs s1 = Ok s'"
    by (auto simp: y and_then_Ok)
  have "frozen_at x k A T s1"
    using s1 Cons.prems(2,3) _ Cons.prems(5) by (rule step_frozen) (use Cons.prems(4) in \<open>simp add: y\<close>)
  then show ?case
    using rest step_effect[OF s1 Cons.prems(2,3)] Cons.prems(4) by (intro Cons.IH) simp_all
qed

lemma process_append:
  "process (xs @ ys) s = and_then (process xs s) (process ys)"
  by (induction xs arbitrary: s) (auto simp: and_then_def split: result.splits)

lemma process_wf:
  "process evs s = Ok s' \<Longrightarrow> wf_maps s \<Longrightarrow> parents_below s \<Longrightarrow> wf_maps s' \<and> parents_below s'"
proof (induction evs arbitrary: s)
  case Nil
  then show ?case by simp
next
  case (Cons y evs)
  obtain seed e where y: "y = (seed, e)" by (cases y)
  from Cons.prems(1) obtain s1 where s1: "step seed e s = Ok s1" and rest: "process evs s1 = Ok s'"
    by (auto simp: y and_then_Ok)
  from step_effect[OF s1 Cons.prems(2,3)] have "wf_maps s1" "parents_below s1" by blast+
  with rest show ?case by (rule Cons.IH)
qed

lemmas advance_defs =
  updateRunningTests_def updateExecutionTimesWithCount_def count_running_def modify_def
  deref_def and_then_def advance_def

lemma duration_div_one: "duration_div (Sub t u) (int 1) = Sub t u"
  using duration_div_trunc[of 1 "Sub t u"] Sub_range[of t u] by (simp add: mult_sgn_abs)

lemma wrap64_Sub: "wrap64 (Sub t u) = Sub t u"
  using Sub_range[of t u] by (simp add: wrap64_id)

text \<open>
  Claim C5, as the code has it. After \<^verbatim>\<open>run P@0\<close>, \<^verbatim>\<open>run P/a@0\<close>, \<^verbatim>\<open>run P/a2@10\<close>
  (milliseconds after any instant \<open>t0\<close>; no finish of \<open>P/a\<close>), whatever the packages and
  the map orders: \<open>P/a\<close> is assumed stopped with an adjusted and a total time of 10 ms;
  \<open>P/a2\<close> is in \<^verbatim>\<open>runningTests\<close>, not assumed stopped, with its clock at \<open>t0\<close> + 10 ms and
  no time yet; a uniform advance to any later event leaves \<open>P/a\<close> at 10 ms and gives
  \<open>P/a2\<close> the whole time since \<open>t0\<close> + 10 ms; and after any further events, none of
  which is a run, pause or continue of \<open>P/a\<close>, the test \<open>P/a\<close> is still assumed stopped
  with both times at 10 ms.
\<close>

theorem scenario_E_sibling_inference:
  "\<exists>s0. process [(sd1, event t0 ''run'' ''P'' pa), (sd2, event t0 ''run'' ''P/a'' pb),
                  (sd3, event (t0 + 10 * Millisecond) ''run'' ''P/a2'' pc)] init = Ok s0
     \<and> dormant s0 ''P/a'' = Some True
     \<and> adjustedTime s0 ''P/a'' = Some (10 * Millisecond)
     \<and> totalTime s0 ''P/a'' = Some (10 * Millisecond)
     \<and> map_option LastTimestamp (active s0 ''P/a2'') = Some (t0 + 10 * Millisecond)
     \<and> map_option AssumedStopped (active s0 ''P/a2'') = Some False
     \<and> adjustedTime s0 ''P/a2'' = Some 0 \<and> totalTime s0 ''P/a2'' = Some 0
     \<and> (\<forall>e. \<exists>s'. updateRunningTests e s0 = Ok s'
            \<and> adjustedTime s' ''P/a'' = Some (10 * Millisecond)
            \<and> totalTime s' ''P/a'' = Some (10 * Millisecond)
            \<and> adjustedTime s' ''P/a2'' = Some (Sub (Time e) (t0 + 10 * Millisecond))
            \<and> totalTime s' ''P/a2'' = Some (Sub (Time e) (t0 + 10 * Millisecond)))
     \<and> (\<forall>evs s. list_all (\<lambda>x. \<not> revives ''P/a'' (snd x)) evs \<longrightarrow> process evs s0 = Ok s \<longrightarrow>
            dormant s ''P/a'' = Some True
            \<and> adjustedTime s ''P/a'' = Some (10 * Millisecond)
            \<and> totalTime s ''P/a'' = Some (10 * Millisecond))"
proof -
  let ?evs = "[(sd1, event t0 ''run'' ''P'' pa), (sd2, event t0 ''run'' ''P/a'' pb),
               (sd3, event (t0 + 10 * Millisecond) ''run'' ''P/a2'' pc)]"
  define s0 where "s0 =
    \<lparr>heap = [\<lparr>Name = ''P'', Package = pa, LastTimestamp = t0,
               AdjustedExecutionTime = 0, TotalExecutionTime = 0, Children = [1, 2],
               Parent = None, AssumedStopped = False, Parallel = False\<rparr>,
             \<lparr>Name = ''P/a'', Package = pb, LastTimestamp = t0 + 10 * Millisecond,
               AdjustedExecutionTime = 10 * Millisecond, TotalExecutionTime = 10 * Millisecond,
               Children = [], Parent = Some 0, AssumedStopped = True, Parallel = False\<rparr>,
             \<lparr>Name = ''P/a2'', Package = pc, LastTimestamp = t0 + 10 * Millisecond,
               AdjustedExecutionTime = 0, TotalExecutionTime = 0, Children = [],
               Parent = Some 0, AssumedStopped = False, Parallel = False\<rparr>],
      allTests = [(''P'', 0), (''P/a'', 1), (''P/a2'', 2)],
      runningTests = [(''P/a'', 1), (''P/a2'', 2)], printed = []\<rparr>"
  have p: "process ?evs init = Ok s0"
    by (simp add: handler_defs s0_def)
  have facts: "dormant s0 ''P/a'' = Some True"
      "adjustedTime s0 ''P/a'' = Some (10 * Millisecond)"
      "totalTime s0 ''P/a'' = Some (10 * Millisecond)"
      "map_option LastTimestamp (active s0 ''P/a2'') = Some (t0 + 10 * Millisecond)"
      "map_option AssumedStopped (active s0 ''P/a2'') = Some False"
      "adjustedTime s0 ''P/a2'' = Some 0" "totalTime s0 ''P/a2'' = Some 0"
    by (simp_all add: s0_def reader_defs deref_def)
  have adv: "\<exists>s'. updateRunningTests e s0 = Ok s'
            \<and> adjustedTime s' ''P/a'' = Some (10 * Millisecond)
            \<and> totalTime s' ''P/a'' = Some (10 * Millisecond)
            \<and> adjustedTime s' ''P/a2'' = Some (Sub (Time e) (t0 + 10 * Millisecond))
            \<and> totalTime s' ''P/a2'' = Some (Sub (Time e) (t0 + 10 * Millisecond))" for e
    using duration_div_one[of "Time e" "t0 + 10 * Millisecond"]
    by (simp add: s0_def advance_defs reader_defs wrap64_Sub)
  have fr: "frozen_at 1 ''P/a'' (10 * Millisecond) (10 * Millisecond) s0"
    by (simp add: s0_def frozen_at_def)
  have wf: "wf_maps s0" "parents_below s0" using process_wf[OF p init_wf] by simp_all
  have "dormant s ''P/a'' = Some True
            \<and> adjustedTime s ''P/a'' = Some (10 * Millisecond)
            \<and> totalTime s ''P/a'' = Some (10 * Millisecond)"
    if "list_all (\<lambda>x. \<not> revives ''P/a'' (snd x)) evs" "process evs s0 = Ok s" for evs s
    using process_frozen[OF that(2) wf that(1) fr]
    by (simp add: frozen_at_def reader_defs deref_def)
  with p facts adv show ?thesis by blast
qed

text \<open>
  Claim C5 as it is written fails: the times of \<open>P/a\<close> do advance afterwards when a
  later event pauses it. \<^verbatim>\<open>handlePause\<close> clears \<^verbatim>\<open>AssumedStopped\<close> and the uniform advance
  at 20 ms gives \<open>P/a\<close> the 10 ms since its last timestamp, shared with \<open>P/a2\<close>.
\<close>

theorem dormant_test_revived_by_pause:
  "\<exists>s. process [([], event 0 ''run'' ''P'' []), ([], event 0 ''run'' ''P/a'' []),
                 ([], event (10 * Millisecond) ''run'' ''P/a2'' []),
                 ([], event (20 * Millisecond) ''pause'' ''P/a'' [])] init = Ok s
     \<and> dormant s ''P/a'' = Some False
     \<and> adjustedTime s ''P/a'' = Some (15 * Millisecond)
     \<and> totalTime s ''P/a'' = Some (20 * Millisecond)"
  by (simp add: handler_defs reader_defs)

text \<open>An instance of claim C5: \<open>P/a2\<close> passes at 30 ms and \<open>P/a\<close> at 40 ms.\<close>

theorem scenario_E_witness:
  "\<exists>s. process [([], event 0 ''run'' ''P'' []), ([], event 0 ''run'' ''P/a'' []),
                 ([], event (10 * Millisecond) ''run'' ''P/a2'' []),
                 ([], event (30 * Millisecond) ''pass'' ''P/a2'' []),
                 ([], event (40 * Millisecond) ''pass'' ''P/a'' [])] init = Ok s
     \<and> dormant s ''P/a'' = Some True
     \<and> adjustedTime s ''P/a'' = Some (10 * Millisecond)
     \<and> totalTime s ''P/a'' = Some (10 * Millisecond)"
proof -
  let ?evs = "[([], event 0 ''run'' ''P'' []), ([], event 0 ''run'' ''P/a'' []),
                 ([], event (10 * Millisecond) ''run'' ''P/a2'' [])]"
  let ?more = "[([], event (30 * Millisecond) ''pass'' ''P/a2'' []),
                 ([], event (40 * Millisecond) ''pass'' ''P/a'' [])]"
  from scenario_E_sibling_inference[of "[]" 0 "[]" "[]" "[]" "[]" "[]"]
  obtain s0 where p: "process ?evs init = Ok s0"
    and later: "\<And>evs s. list_all (\<lambda>x. \<not> revives ''P/a'' (snd x)) evs \<Longrightarrow> process evs s0 = Ok s \<Longrightarrow>
            dormant s ''P/a'' = Some True
            \<and> adjustedTime s ''P/a'' = Some (10 * Millisecond)
            \<and> totalTime s ''P/a'' = Some (10 * Millisecond)"
    by auto
  have "\<exists>s. process (?evs @ ?more) init = Ok s" by (simp add: handler_defs)
  then obtain s where s: "process (?evs @ ?more) init = Ok s" ..
  then have "process ?more s0 = Ok s" using p by (simp only: process_append and_then_def result.case)
  moreover have "list_all (\<lambda>x. \<not> revives ''P/a'' (snd x)) ?more"
    by (simp add: revives_def event_def)
  ultimately have "dormant s ''P/a'' = Some True
            \<and> adjustedTime s ''P/a'' = Some (10 * Millisecond)
            \<and> totalTime s ''P/a'' = Some (10 * Millisecond)"
    by (rule later[rotated])
  with s show ?thesis by auto
qed

subsection \<open>The order of a range over a map\<close>

text \<open>
  \<open>range_order\<close> visits every entry once. The loops of \<^verbatim>\<open>updateRunningTests\<close> and
  \<^verbatim>\<open>handleCont\<close> and the search for the longest known prefix give the same result in
  every order, which is why their models read the map in the stored order.
\<close>

lemma mset_range_order: "mset (range_order seed xs) = mset xs"
proof (induction seed xs rule: range_order.induct)
  case (3 p seed x xs)
  define i where "i = p mod Suc (length xs)"
  define l where "l = x # xs"
  define rest where "rest = take i l @ drop (Suc i) l"
  have i: "i < length l" by (simp add: i_def l_def)
  have ih: "mset (range_order seed rest) = mset rest"
    using 3 by (simp add: rest_def l_def i_def)
  have "range_order (p # seed) l = l ! i # range_order seed rest"
    by (simp add: l_def i_def rest_def)
  then have "mset (range_order (p # seed) l) = add_mset (l ! i) (mset rest)"
    by (simp add: ih)
  also have "\<dots> = mset (take i l @ l ! i # drop (Suc i) l)" by (simp add: rest_def)
  also have "\<dots> = mset l" by (simp only: id_take_nth_drop[OF i, symmetric])
  finally show ?case by (simp add: l_def)
qed simp_all

lemma update_each_fold:
  "0 < c \<Longrightarrow> update_each e c as s = Ok (fold (update_one (Time e) c) as s)"
  by (induction as arbitrary: s)
     (simp_all add: updateExecutionTimesWithCount_def update_one_def and_then_def)

lemma update_each_zero:
  "update_each e 0 as s =
     (if list_all (\<lambda>a. AssumedStopped (deref s a)) as then Ok s else Panic DivideByZero)"
  by (induction as arbitrary: s)
     (simp_all add: updateExecutionTimesWithCount_def and_then_def)

lemma update_one_commute: "update_one t c a (update_one t c b s) = update_one t c b (update_one t c a s)"
proof (cases "a = b")
  case True
  then show ?thesis by simp
next
  case False
  then show ?thesis
    by (simp add: update_one_def deref_modify) (simp add: modify_def list_update_swap)
qed

lemma update_each_any_order:
  assumes "mset as = mset bs"
  shows "update_each e c as s = update_each e c bs s"
proof (cases "c = 0")
  case True
  have "set as = set bs" using assms by (rule mset_eq_setD)
  then show ?thesis by (simp add: True update_each_zero list_all_iff)
next
  case False
  have "fold (update_one (Time e) c) as = fold (update_one (Time e) c) bs"
    by (rule fold_multiset_equiv[OF _ assms]) (simp add: fun_eq_iff update_one_commute)
  with False show ?thesis by (simp add: update_each_fold)
qed

lemma updateRunningTests_any_order:
  "update_each e (count_running s) (map snd (range_order seed (runningTests s))) s
   = updateRunningTests e s"
  unfolding updateRunningTests_def
  by (rule update_each_any_order) (simp add: mset_range_order)

lemma count_running_modify_advance [simp]:
  "count_running (modify a (advance t c) s) = count_running s"
proof -
  have "AssumedStopped (deref (modify a (advance t c) s) b) = AssumedStopped (deref s b)" for b
    by (simp add: deref_modify)
  then show ?thesis by (simp add: count_running_def)
qed

lemma update_each_counting_eq:
  "update_each_counting e as s = update_each e (count_running s) as s"
proof (induction as arbitrary: s)
  case Nil
  then show ?case by simp
next
  case (Cons a as)
  show ?case
    by (cases "AssumedStopped (deref s a)"; cases "count_running s = 0")
       (simp_all add: updateExecutionTimes_def updateExecutionTimesWithCount_def and_then_def Cons)
qed

lemma update_each_counting_any_order:
  "update_each_counting e (map snd (range_order seed (runningTests s))) s
   = update_each_counting e (map snd (runningTests s)) s"
  unfolding update_each_counting_eq
  by (rule update_each_any_order) (simp add: mset_range_order)

lemma prefix_slash_same_length:
  assumes "prefix (n1 @ ''/'') test" and "prefix (n2 @ ''/'') test" and "length n1 = length n2"
  shows "n1 = n2"
proof -
  from assms(1,2) have "prefix (n1 @ ''/'') (n2 @ ''/'') \<or> prefix (n2 @ ''/'') (n1 @ ''/'')"
    by (rule prefix_same_cases)
  with assms(3) show ?thesis by (auto simp: prefix_def)
qed

lemma find_filter: "find P xs = (case filter P xs of [] \<Rightarrow> None | x # _ \<Rightarrow> Some x)"
  by (induction xs) simp_all

lemma longest_prefix_any_order:
  assumes "mset names' = mset names"
  shows "find (\<lambda>name. prefix (name @ ''/'') test) (sort_key (\<lambda>name. - int (length name)) names')
       = find (\<lambda>name. prefix (name @ ''/'') test) (sort_key (\<lambda>name. - int (length name)) names)"
proof -
  let ?P = "\<lambda>name. prefix (name @ ''/'') test"
  let ?f = "\<lambda>name :: string. - int (length name)"
  have "sort_key ?f (filter ?P names') = sort_key ?f (filter ?P names)"
  proof (rule sort_key_inj_key_eq)
    show "mset (filter ?P names') = mset (sort_key ?f (filter ?P names))"
      using assms by simp
    show "inj_on ?f (set (filter ?P names'))"
      by (auto simp: inj_on_def intro: prefix_slash_same_length)
    show "sorted (map ?f (sort_key ?f (filter ?P names)))" by simp
  qed
  then show ?thesis by (simp add: find_filter filter_sort)
qed

lemma resolveParent_any_order:
  assumes "distinct (map fst (allTests s))"
  shows "resolveParent test parent (s\<lparr>allTests := range_order seed (allTests s)\<rparr>)
       = resolveParent test parent s"
proof -
  let ?al = "range_order seed (allTests s)"
  have m: "mset ?al = mset (allTests s)" by (rule mset_range_order)
  then have "mset (map fst ?al) = mset (map fst (allTests s))" by simp
  then have d: "distinct (map fst ?al)" using assms by (metis mset_eq_imp_distinct_iff)
  have "set ?al = set (allTests s)" using m by (rule mset_eq_setD)
  then have "map_of ?al = map_of (allTests s)" using d assms by (simp add: map_of_inject_set)
  moreover have "find (\<lambda>name. prefix (name @ ''/'') test) (sort_key (\<lambda>name. - int (length name)) (map fst ?al))
       = find (\<lambda>name. prefix (name @ ''/'') test) (sort_key (\<lambda>name. - int (length name)) (map fst (allTests s)))"
    by (rule longest_prefix_any_order) (simp add: m)
  ultimately show ?thesis by (simp add: resolveParent_def Let_def split: option.splits)
qed

lemma process_distinct_keys:
  "process evs s = Ok s' \<Longrightarrow> wf_maps s \<Longrightarrow> parents_below s
   \<Longrightarrow> distinct (map fst (allTests s)) \<Longrightarrow> distinct (map fst (allTests s'))"
proof (induction evs arbitrary: s)
  case Nil
  then show ?case by simp
next
  case (Cons y evs)
  obtain seed e where y: "y = (seed, e)" by (cases y)
  from Cons.prems(1) obtain s1 where s1: "step seed e s = Ok s1" and rest: "process evs s1 = Ok s'"
    by (auto simp: y and_then_Ok)
  from step_effect[OF s1 Cons.prems(2,3)] have wf: "wf_maps s1" "parents_below s1" by blast+
  from step_maps[OF s1 Cons.prems(2,3)]
  have "allTests s1 = allTests s
        \<or> allTests s1 = AList.update (Test e) (length (heap s)) (allTests s)"
    by blast
  then have "distinct (map fst (allTests s1))"
    using Cons.prems(4) by (auto simp: distinct_update)
  with rest wf show ?case by (intro Cons.IH)
qed

corollary process_from_init:
  assumes "process evs init = Ok s"
  shows "wf_maps s" and "parents_below s" and "distinct (map fst (allTests s))"
  using process_wf[OF assms init_wf] process_distinct_keys[OF assms init_wf]
  by (simp_all add: init_def)

corollary process_from_init_returns: "process evs init \<noteq> Diverge"
  by (rule process_returns[OF init_wf])

subsection \<open>Conservation of a uniform advance\<close>

text \<open>
  In the states that the program reaches, every key of \<^verbatim>\<open>runningTests\<close> and of \<^verbatim>\<open>allTests\<close> is
  the name of its record, so two keys of \<^verbatim>\<open>runningTests\<close> never lead to the same record:
  \<^verbatim>\<open>updateRunningTests\<close> advances every running test once.
\<close>

lemma list_all_pairD: "list_all (\<lambda>(k, a). P k a) al \<Longrightarrow> (k, a) \<in> set al \<Longrightarrow> P k a"
  by (fastforce simp: list_all_iff)

lemma step_named:
  assumes "step seed e s = Ok s'" and "wf_maps s" and "parents_below s" and "named_maps s"
    and "distinct (map fst (runningTests s))"
  shows "named_maps s' \<and> distinct (map fst (runningTests s'))"
proof -
  let ?P = "\<lambda>(k, a). Name (heap s' ! a) = k"
  from step_effect[OF assms(1,2,3)] obtain s0 where
    s0: "s0 = s \<or> s0 = allocate e s" and ev: "evolves (Time e) (is_target e s) s0 s'"
    by blast
  have nm: "Name (heap s' ! a) = Name (heap s ! a)" if "a < length (heap s)" for a
  proof -
    have "a < length (heap s0)" "heap s0 ! a = heap s ! a"
      using s0 that by (auto simp: allocate_facts nth_append)
    then show ?thesis using evolves_Name[OF ev, of a] by simp
  qed
  have keep: "list_all ?P al"
    if "list_all (\<lambda>(k, a). a < length (heap s)) al" "list_all (\<lambda>(k, a). Name (heap s ! a) = k) al"
    for al :: "(string \<times> addr) list"
    unfolding list_all_iff
  proof
    fix x assume x: "x \<in> set al"
    obtain k a where ka: "x = (k, a)" by (cases x)
    have "a < length (heap s)" "Name (heap s ! a) = k"
      using list_all_pairD[OF that(1)] list_all_pairD[OF that(2)] x by (simp_all add: ka)
    then show "?P x" using nm by (simp add: ka)
  qed
  have R: "list_all ?P (runningTests s)"
    using assms(2,4) by (intro keep) (simp_all add: named_maps_def wf_maps_def)
  have A: "list_all ?P (allTests s)"
    using assms(2,4) by (intro keep) (simp_all add: named_maps_def wf_maps_def)
  note d = assms(5)
  consider (skip) "s' = s"
    | (run) "Action e = ''run''" "handleRun seed e s = Ok s'"
    | (pause) "Action e = ''pause''" "handlePause e s = Ok s'"
    | (cont) "Action e = ''cont''" "handleCont e s = Ok s'"
    | (stop) "handleStop e s = Ok s'"
    using assms(1) by (rule step_cases)
  then have "list_all ?P (runningTests s') \<and> list_all ?P (allTests s')
             \<and> distinct (map fst (runningTests s'))"
  proof cases
    case skip
    then show ?thesis using assms(4,5) by (simp add: named_maps_def)
  next
    case run
    note eff = handleRun_effect[OF run(2) assms(2,3), of "\<lambda>_. False"]
    have ev': "evolves (Time e) (\<lambda>_. False) (allocate e s) s'" using eff by simp
    have "Name (heap s' ! length (heap s)) = Name (heap (allocate e s) ! length (heap s))"
      by (rule evolves_Name[OF ev']) (simp add: allocate_facts)
    then have new: "?P (Test e, length (heap s))"
      by (simp add: allocate_facts newRunningTest_def)
    have "list_all ?P (allTests s')"
      using eff A new by (simp add: allocate_facts list_all_update)
    moreover from eff obtain k where
      "runningTests s' = AList.update (Test e) (length (heap s)) (AList.delete k (runningTests s))
       \<or> runningTests s' = AList.update (Test e) (length (heap s)) (runningTests s)"
      by blast
    then have "list_all ?P (runningTests s') \<and> distinct (map fst (runningTests s'))"
      using R new d by (auto simp: list_all_update list_all_delete distinct_update distinct_delete)
    ultimately show ?thesis by simp
  next
    case pause
    note eff = handlePause_effect[OF pause(2)]
    then have "runningTests s' = runningTests s \<or> runningTests s' = AList.delete (Test e) (runningTests s)"
      and "allTests s' = allTests s"
      by simp_all
    then show ?thesis using R A d by (auto simp: list_all_delete distinct_delete)
  next
    case cont
    note eff = handleCont_effect[OF cont(2)]
    from eff consider "runningTests s' = runningTests s"
      | test where "map_of (allTests s) (Test e) = Some test"
          "runningTests s' = AList.update (Test e) test (runningTests s)"
      by blast
    then have "list_all ?P (runningTests s') \<and> distinct (map fst (runningTests s'))"
    proof cases
      case 1
      then show ?thesis using R d by simp
    next
      case 2
      have "(Test e, test) \<in> set (allTests s)" using 2(1) by (rule map_of_SomeD)
      then have "?P (Test e, test)" using A by (auto simp: list_all_iff)
      then show ?thesis using R d by (simp add: 2(2) list_all_update distinct_update)
    qed
    then show ?thesis using eff A by simp
  next
    case stop
    note eff = handleStop_effect[OF stop, of "\<lambda>_. False"]
    have par: "parent < length (heap s)"
      if "map_of (runningTests s) (Test e) = Some test" "Parent (deref s test) = Some parent" for test parent
    proof -
      have t: "test < length (heap s)" using wf_maps_running[OF assms(2) that(1)] .
      then have "parent < test" using assms(3) that(2) by (auto simp: parents_below_def deref_def)
      with t show ?thesis by simp
    qed
    from eff consider "runningTests s' = runningTests s"
      | "runningTests s' = AList.delete (Test e) (runningTests s)"
      | test parent where "map_of (runningTests s) (Test e) = Some test"
          "Parent (deref s test) = Some parent"
          "runningTests s' = AList.delete (Test e)
                        (AList.update (Name (deref s parent)) parent (runningTests s))"
      by blast
    then have "list_all ?P (runningTests s') \<and> distinct (map fst (runningTests s'))"
    proof cases
      case 1
      then show ?thesis using R d by simp
    next
      case 2
      then show ?thesis using R d by (simp add: list_all_delete distinct_delete)
    next
      case 3
      have "?P (Name (deref s parent), parent)"
        using nm[OF par[OF 3(1,2)]] by (simp add: deref_def)
      then show ?thesis
        using R d by (simp add: 3(3) list_all_update list_all_delete distinct_update distinct_delete)
    qed
    then show ?thesis using eff A by simp
  qed
  then show ?thesis by (simp add: named_maps_def)
qed

lemma process_named:
  "process evs s = Ok s' \<Longrightarrow> wf_maps s \<Longrightarrow> parents_below s \<Longrightarrow> named_maps s
   \<Longrightarrow> distinct (map fst (runningTests s))
   \<Longrightarrow> named_maps s' \<and> distinct (map fst (runningTests s'))"
proof (induction evs arbitrary: s)
  case Nil
  then show ?case by simp
next
  case (Cons y evs)
  obtain seed e where y: "y = (seed, e)" by (cases y)
  from Cons.prems(1) obtain s1 where s1: "step seed e s = Ok s1" and rest: "process evs s1 = Ok s'"
    by (auto simp: y and_then_Ok)
  from step_effect[OF s1 Cons.prems(2,3)] have wf: "wf_maps s1" "parents_below s1" by blast+
  from step_named[OF s1 Cons.prems(2,3,4,5)]
  have "named_maps s1" "distinct (map fst (runningTests s1))" by simp_all
  with rest wf show ?case by (intro Cons.IH)
qed

lemma running_records_distinct:
  assumes "process evs init = Ok s"
  shows "distinct (map snd (runningTests s))"
    and "\<forall>a\<in>set (map snd (runningTests s)). a < length (heap s)"
proof -
  have wf: "wf_maps s" using process_wf[OF assms init_wf] by simp
  have "named_maps init" "distinct (map fst (runningTests init))"
    by (simp_all add: named_maps_def init_def)
  from process_named[OF assms init_wf this]
  have nm: "list_all (\<lambda>(k, a). Name (heap s ! a) = k) (runningTests s)"
    and d: "distinct (map fst (runningTests s))"
    by (simp_all add: named_maps_def)
  have "inj_on snd (set (runningTests s))"
  proof (rule inj_onI)
    fix x y assume x: "x \<in> set (runningTests s)" and y: "y \<in> set (runningTests s)" and eq: "snd x = snd y"
    have "Name (heap s ! snd x) = fst x" "Name (heap s ! snd y) = fst y"
      using list_all_pairD[OF nm, of "fst x" "snd x"] list_all_pairD[OF nm, of "fst y" "snd y"] x y
      by simp_all
    then show "x = y" using eq by (simp add: prod_eq_iff)
  qed
  moreover have "distinct (runningTests s)" using d by (simp add: distinct_map)
  ultimately show "distinct (map snd (runningTests s))" by (simp add: distinct_map)
  show "\<forall>a\<in>set (map snd (runningTests s)). a < length (heap s)"
    using wf by (auto simp: wf_maps_def list_all_iff)
qed

lemma uniform_advance_sum:
  assumes "distinct (map snd (runningTests s))"
    and "\<forall>a\<in>set (map snd (runningTests s)). a < length (heap s)"
    and "\<forall>a\<in>set (active_addrs s). LastTimestamp (deref s a) = L"
    and "active_addrs s \<noteq> []"
    and "minDuration \<le> Time e - L" and "Time e - L \<le> maxDuration"
    and "\<forall>a\<in>set (active_addrs s).
           minDuration \<le> AdjustedExecutionTime (deref s a)
                            + duration_div (Time e - L) (int (length (active_addrs s)))
           \<and> AdjustedExecutionTime (deref s a)
                + duration_div (Time e - L) (int (length (active_addrs s))) \<le> maxDuration"
  shows "\<exists>s'. updateRunningTests e s = Ok s'
           \<and> \<bar>(Time e - L) - sum_list (map (increment s s') (active_addrs s))\<bar>
               \<le> int (length (active_addrs s)) - 1
           \<and> (0 \<le> Time e - L \<longrightarrow> sum_list (map (increment s s') (active_addrs s)) \<le> Time e - L)"
proof -
  define c where "c = count_running s"
  define d where "d = Time e - L"
  have c: "c = length (active_addrs s)" by (simp add: c_def count_running_active)
  then have pos: "0 < c" using assms(4) by simp
  obtain s' where s': "update_each e c (map snd (runningTests s)) s = Ok s'"
    and eff: "\<And>a. deref s' a = (if a \<in> set (map snd (runningTests s)) \<and> \<not> AssumedStopped (deref s a)
                                then advance (Time e) c (deref s a) else deref s a)"
    using update_each_effect[OF pos assms(1,2), of e] by blast
  have sub: "Sub (Time e) L = d"
    using assms(5,6) by (simp add: Sub_def d_def)
  have q: "duration_div d (int c) = sgn d * (\<bar>d\<bar> div int c)"
    using assms(5,6) by (intro duration_div_trunc pos) (simp_all add: d_def)
  have inc: "increment s s' a = duration_div d (int c)" if "a \<in> set (active_addrs s)" for a
  proof -
    have "deref s' a = advance (Time e) c (deref s a)"
      using that by (simp add: eff active_addrs_def)
    moreover have "LastTimestamp (deref s a) = L" using that assms(3) by blast
    moreover have "wrap64 (AdjustedExecutionTime (deref s a) + duration_div d (int c))
                   = AdjustedExecutionTime (deref s a) + duration_div d (int c)"
      using assms(7) that by (intro wrap64_id) (simp_all add: d_def c)
    ultimately show ?thesis
      by (simp add: increment_def advance_def sub)
  qed
  have "map (increment s s') (active_addrs s) = replicate c (duration_div d (int c))"
    using inc by (simp add: c map_replicate_const[symmetric] cong: map_cong)
  then have total: "sum_list (map (increment s s') (active_addrs s)) = int c * (sgn d * (\<bar>d\<bar> div int c))"
    by (simp add: sum_list_replicate q)
  show ?thesis
    using s' share_remainder[OF pos, of d] total
    by (simp add: updateRunningTests_def c_def[symmetric] d_def[symmetric] c[symmetric])
qed

text \<open>
  Claim C1, as the code has it. In a state reached by processing an event stream from
  the empty state, let the running tests that are not assumed stopped (there is at least
  one) share the last timestamp \<open>L\<close>, and let no \<^verbatim>\<open>int64\<close> overflow: the interval
  \<open>Time e - L\<close> is a duration, and so is, for each of these tests, its adjusted time plus
  its share of the interval, the quotient by the count. Then \<^verbatim>\<open>updateRunningTests\<close>
  returns, and the increments it gives to the adjusted times of these tests sum up to
  the interval but for a remainder of at most count - 1 nanoseconds; for an interval
  that is not negative the sum does not exceed it.
\<close>

theorem uniform_advance_conserves_time:
  assumes "process evs init = Ok s"
    and "\<forall>a\<in>set (active_addrs s). LastTimestamp (deref s a) = L"
    and "active_addrs s \<noteq> []"
    and "minDuration \<le> Time e - L" and "Time e - L \<le> maxDuration"
    and "\<forall>a\<in>set (active_addrs s).
           minDuration \<le> AdjustedExecutionTime (deref s a)
                            + duration_div (Time e - L) (int (length (active_addrs s)))
           \<and> AdjustedExecutionTime (deref s a)
                + duration_div (Time e - L) (int (length (active_addrs s))) \<le> maxDuration"
  shows "\<exists>s'. updateRunningTests e s = Ok s'
           \<and> \<bar>(Time e - L) - sum_list (map (increment s s') (active_addrs s))\<bar>
               \<le> int (length (active_addrs s)) - 1
           \<and> (0 \<le> Time e - L \<longrightarrow> sum_list (map (increment s s') (active_addrs s)) \<le> Time e - L)"
  using running_records_distinct[OF assms(1)] assms(2-) by (rule uniform_advance_sum)

text \<open>An instance of claim C1: two running tests started at 0, and an advance to 7 ns.\<close>

theorem uniform_advance_witness:
  "\<exists>s s'. process [([], event 0 ''run'' ''A'' []), ([], event 0 ''run'' ''B'' [])] init = Ok s
     \<and> active_addrs s = [0, 1]
     \<and> updateRunningTests (event 7 ''pass'' ''A'' []) s = Ok s'
     \<and> \<bar>7 - sum_list (map (increment s s') [0, 1])\<bar> \<le> 1"
proof -
  define s where "s = \<lparr>heap = [newRunningTest (event 0 ''run'' ''A'' []), newRunningTest (event 0 ''run'' ''B'' [])],
           allTests = [(''A'', 0), (''B'', 1)], runningTests = [(''A'', 0), (''B'', 1)], printed = []\<rparr>"
  have s: "process [([], event 0 ''run'' ''A'' []), ([], event 0 ''run'' ''B'' [])] init = Ok s"
    by (simp add: s_def handler_defs)
  have a: "active_addrs s = [0, 1]"
    by (simp add: s_def active_addrs_def deref_def newRunningTest_def)
  have h2: "\<forall>a\<in>set (active_addrs s). LastTimestamp (deref s a) = 0"
    by (simp add: a) (simp add: s_def deref_def newRunningTest_def event_def)
  have h3: "active_addrs s \<noteq> []" by (simp add: a)
  have h4: "minDuration \<le> Time (event 7 ''pass'' ''A'' []) - 0"
    and h5: "Time (event 7 ''pass'' ''A'' []) - 0 \<le> maxDuration"
    by (simp_all add: event_def minDuration_def maxDuration_def)
  have h6: "\<forall>a\<in>set (active_addrs s).
           minDuration \<le> AdjustedExecutionTime (deref s a)
                            + duration_div (Time (event 7 ''pass'' ''A'' []) - 0) (int (length (active_addrs s)))
           \<and> AdjustedExecutionTime (deref s a)
                + duration_div (Time (event 7 ''pass'' ''A'' []) - 0) (int (length (active_addrs s))) \<le> maxDuration"
    by (simp add: a) (simp add: s_def deref_def newRunningTest_def event_def duration_div_def wrap64_def
          minDuration_def maxDuration_def)
  from uniform_advance_conserves_time[OF s h2 h3 h4 h5 h6]
  obtain s' where "updateRunningTests (event 7 ''pass'' ''A'' []) s = Ok s'"
    and "\<bar>7 - sum_list (map (increment s s') [0, 1])\<bar> \<le> 1"
    by (auto simp: a event_def)
  with s a show ?thesis by blast
qed

text \<open>
  Claim C1 as it is written fails when an \<^verbatim>\<open>int64\<close> overflows. After \<^verbatim>\<open>run A@0\<close> the only
  running test is \<open>A\<close>, with the last timestamp 0; an advance at \<open>2^63 + 5\<close> ns gives it
  \<open>2^63 - 1\<close> ns, the largest duration, because \<^verbatim>\<open>Sub\<close> does not return more: 6 ns are
  missing, and the claim allows count - 1 = 0. And after \<^verbatim>\<open>cont A\<close> at \<open>2^63 + 5\<close> ns the
  adjusted time of \<open>A\<close> is the largest duration; an advance 10 ns later wraps it
  around, and the adjusted time after minus the one before is \<open>10 - 2^64\<close>.
\<close>

theorem uniform_advance_loses_time_on_overflow:
  "(\<exists>s s'. process [([], event 0 ''run'' ''A'' [])] init = Ok s
      \<and> active_addrs s = [0] \<and> LastTimestamp (deref s 0) = 0
      \<and> updateRunningTests (event 9223372036854775813 ''pass'' ''A'' []) s = Ok s'
      \<and> sum_list (map (increment s s') (active_addrs s)) = 9223372036854775807
      \<and> int (length (active_addrs s)) - 1
           < \<bar>(9223372036854775813 - 0) - sum_list (map (increment s s') (active_addrs s))\<bar>)
   \<and> (\<exists>s s'. process [([], event 0 ''run'' ''A'' []),
                       ([], event 9223372036854775813 ''cont'' ''A'' [])] init = Ok s
      \<and> active_addrs s = [0] \<and> LastTimestamp (deref s 0) = 9223372036854775813
      \<and> updateRunningTests (event 9223372036854775823 ''pass'' ''A'' []) s = Ok s'
      \<and> sum_list (map (increment s s') (active_addrs s)) = 10 - 2 ^ 64
      \<and> int (length (active_addrs s)) - 1
           < \<bar>(9223372036854775823 - 9223372036854775813)
                - sum_list (map (increment s s') (active_addrs s))\<bar>)"
  by (simp add: handler_defs active_addrs_def increment_def)

text \<open>
  The two conditions on overflow hold in every run whose timestamps do not decrease and
  lie within \<open>maxDuration\<close> (about 292 years) of the first one: there the sum of the
  increments is the interval but for the remainder, and does not exceed it.
\<close>

lemma process_times_last:
  "process evs s = Ok s' \<Longrightarrow> wf_maps s \<Longrightarrow> parents_below s \<Longrightarrow> list_all (times_ok T0 t) (heap s)
   \<Longrightarrow> sorted (t # map (\<lambda>x. Time (snd x)) evs) \<Longrightarrow> T0 \<le> t
   \<Longrightarrow> list_all (\<lambda>x. Time (snd x) - T0 \<le> maxDuration) evs
   \<Longrightarrow> list_all (times_ok T0 (last (t # map (\<lambda>x. Time (snd x)) evs))) (heap s')"
proof (induction evs arbitrary: s t)
  case Nil
  then show ?case by simp
next
  case (Cons x evs)
  obtain seed e where x: "x = (seed, e)" by (cases x)
  from Cons.prems(1) obtain s1 where s1: "step seed e s = Ok s1" and rest: "process evs s1 = Ok s'"
    by (auto simp: x and_then_Ok)
  have t: "t \<le> Time e" "Time e - T0 \<le> maxDuration" "T0 \<le> Time e"
    using Cons.prems(5,6,7) by (simp_all add: x)
  have h: "list_all (times_ok T0 (Time e)) (heap s1)"
  proof (rule step_list_all[OF s1 Cons.prems(2,3)])
    show "times_ok T0 (Time e) r \<Longrightarrow> times_ok T0 (Time e) r'" if "record_step (Time e) b a r r'" for b a r r'
      using record_step_times[OF that _ t(2)] by simp
    show "times_ok T0 (Time e) (newRunningTest e)"
      using t(3) by (simp add: times_ok_def newRunningTest_def)
    show "list_all (times_ok T0 (Time e)) (heap s)"
      using Cons.prems(4) t(1) by (auto simp: list_all_iff intro: times_ok_mono)
  qed
  have srt: "sorted (Time e # map (\<lambda>x. Time (snd x)) evs)"
    using Cons.prems(5) by (simp add: x)
  have win: "list_all (\<lambda>x. Time (snd x) - T0 \<le> maxDuration) evs"
    using Cons.prems(7) by simp
  have wf: "wf_maps s1" "parents_below s1"
    using step_effect[OF s1 Cons.prems(2,3)] by blast+
  from Cons.IH[OF rest wf h srt t(3) win] show ?case by (simp add: x)
qed

lemma advance_within_window:
  assumes "process evs init = Ok s"
    and "sorted (map (\<lambda>x. Time (snd x)) evs @ [Time e])"
    and "Time e - Time (snd (hd evs)) \<le> maxDuration"
    and "a < length (heap s)" and "0 < c"
  shows "0 \<le> Time e - LastTimestamp (heap s ! a) \<and> Time e - LastTimestamp (heap s ! a) \<le> maxDuration
       \<and> 0 \<le> AdjustedExecutionTime (heap s ! a) + duration_div (Time e - LastTimestamp (heap s ! a)) (int c)
       \<and> AdjustedExecutionTime (heap s ! a) + duration_div (Time e - LastTimestamp (heap s ! a)) (int c)
            \<le> maxDuration"
proof (cases evs)
  case Nil
  with assms(1) have "heap s = []" by (auto simp: init_def)
  with assms(4) show ?thesis by simp
next
  case (Cons x xs)
  define T0 where "T0 = Time (snd x)"
  define t' where "t' = last (T0 # map (\<lambda>x. Time (snd x)) evs)"
  have srt0: "sorted (map (\<lambda>x. Time (snd x)) evs)" and le_e: "\<forall>y\<in>set evs. Time (snd y) \<le> Time e"
    using assms(2) by (simp_all add: sorted_append)
  have srt: "sorted (T0 # map (\<lambda>x. Time (snd x)) evs)"
    using srt0 Cons by (auto simp: T0_def)
  have win: "list_all (\<lambda>x. Time (snd x) - T0 \<le> maxDuration) evs"
    using le_e assms(3) Cons by (auto simp: T0_def list_all_iff)
  have "list_all (times_ok T0 T0) (heap init)" by (simp add: init_def)
  from process_times_last[OF assms(1) init_wf this srt order_refl win]
  have "list_all (times_ok T0 t') (heap s)" by (simp add: t'_def)
  then have ok: "times_ok T0 t' (heap s ! a)" using assms(4) by (simp add: list_all_length)
  have ne: "map (\<lambda>x. Time (snd x)) evs \<noteq> []" using Cons by simp
  then have "t' = last (map (\<lambda>x. Time (snd x)) evs)" by (simp add: t'_def)
  with last_in_set[OF ne] have "t' \<in> set (map (\<lambda>x. Time (snd x)) evs)" by simp
  then have t'e: "t' \<le> Time e" using le_e by auto
  define d where "d = Time e - LastTimestamp (heap s ! a)"
  have r: "0 \<le> AdjustedExecutionTime (heap s ! a)"
    "AdjustedExecutionTime (heap s ! a) \<le> TotalExecutionTime (heap s ! a)"
    "TotalExecutionTime (heap s ! a) \<le> LastTimestamp (heap s ! a) - T0"
    "LastTimestamp (heap s ! a) \<le> t'"
    using ok by (simp_all add: times_ok_def)
  have e0: "Time e - T0 \<le> maxDuration" using assms(3) Cons by (simp add: T0_def)
  have d: "0 \<le> d" "d \<le> maxDuration" using r t'e e0 by (simp_all add: d_def)
  have q: "duration_div d (int c) = sgn d * (\<bar>d\<bar> div int c)"
    using d by (intro duration_div_trunc assms(5)) (simp_all add: minDuration_def)
  have k: "0 < int c" using assms(5) by simp
  have "duration_div d (int c) = d div int c"
    using d(1) q by (cases "d = 0") simp_all
  then have q2: "0 \<le> duration_div d (int c)" "duration_div d (int c) \<le> d"
    using div_facts(1,2)[OF d(1) k] by simp_all
  have "AdjustedExecutionTime (heap s ! a) + duration_div d (int c) \<le> Time e - T0"
    using r q2 by (simp add: d_def)
  then show ?thesis using d q2 r(1) e0 by (simp add: d_def[symmetric])
qed

lemma uniform_advance_within_window:
  assumes "process evs init = Ok s"
    and "sorted (map (\<lambda>x. Time (snd x)) evs @ [Time e])"
    and "Time e - Time (snd (hd evs)) \<le> maxDuration"
    and "\<forall>a\<in>set (active_addrs s). LastTimestamp (deref s a) = L"
    and "active_addrs s \<noteq> []"
  shows "\<exists>s'. updateRunningTests e s = Ok s'
           \<and> \<bar>(Time e - L) - sum_list (map (increment s s') (active_addrs s))\<bar>
               \<le> int (length (active_addrs s)) - 1
           \<and> sum_list (map (increment s s') (active_addrs s)) \<le> Time e - L"
proof -
  note wf = running_records_distinct[OF assms(1)]
  have pos: "0 < length (active_addrs s)" using assms(5) by simp
  have win: "0 \<le> Time e - L \<and> Time e - L \<le> maxDuration
       \<and> 0 \<le> AdjustedExecutionTime (deref s a) + duration_div (Time e - L) (int (length (active_addrs s)))
       \<and> AdjustedExecutionTime (deref s a) + duration_div (Time e - L) (int (length (active_addrs s)))
            \<le> maxDuration"
    if "a \<in> set (active_addrs s)" for a
  proof -
    have "a < length (heap s)" using that wf(2) by (auto simp: active_addrs_def)
    from advance_within_window[OF assms(1,2,3) this pos] assms(4) that
    show ?thesis by (simp add: deref_def)
  qed
  obtain a0 where a0: "a0 \<in> set (active_addrs s)" using assms(5) by (cases "active_addrs s") auto
  have d: "0 \<le> Time e - L" "minDuration \<le> Time e - L" "Time e - L \<le> maxDuration"
    using win[OF a0] by (simp_all add: minDuration_def)
  have acc: "\<forall>a\<in>set (active_addrs s).
           minDuration \<le> AdjustedExecutionTime (deref s a)
                            + duration_div (Time e - L) (int (length (active_addrs s)))
           \<and> AdjustedExecutionTime (deref s a)
                + duration_div (Time e - L) (int (length (active_addrs s))) \<le> maxDuration"
  proof
    fix a assume "a \<in> set (active_addrs s)"
    from win[OF this] show "minDuration \<le> AdjustedExecutionTime (deref s a)
                            + duration_div (Time e - L) (int (length (active_addrs s)))
           \<and> AdjustedExecutionTime (deref s a)
                + duration_div (Time e - L) (int (length (active_addrs s))) \<le> maxDuration"
      by (simp add: minDuration_def)
  qed
  from uniform_advance_sum[OF wf assms(4,5) d(2,3) acc] d(1) show ?thesis by auto
qed

subsection \<open>The panic for a missing parent is never reached\<close>

text \<open>
  When \<^verbatim>\<open>isSubTest\<close> finds a subtest, the parent it returns is not empty, and \<^verbatim>\<open>main\<close>
  skips the events without a test name, so no known name is empty either: the variable
  \<^verbatim>\<open>parent\<close> is never empty at the test of line 142.
\<close>

lemma isSubTest_parent_nonempty:
  assumes "isSubTest test = (p, True)"
  shows "p \<noteq> []"
proof -
  from assms obtain i rest where
    f: "filter (\<lambda>i. test ! i = CHR ''/'') (rev [1..<length test - 1]) = i # rest"
    and p: "p = take i test"
    by (auto simp: isSubTest_def split: if_splits list.splits)
  have "i \<in> set (filter (\<lambda>i. test ! i = CHR ''/'') (rev [1..<length test - 1]))"
    unfolding f by simp
  then have "1 \<le> i" "i < length test" by auto
  then show ?thesis by (auto simp: p)
qed

lemma and_then_Panic:
  "and_then r f = Panic q \<longleftrightarrow> r = Panic q \<or> (\<exists>x. r = Ok x \<and> f x = Panic q)"
  by (cases r) (simp_all add: and_then_def)

lemma find_in_set: "find P xs = Some x \<Longrightarrow> x \<in> set xs"
  by (induction xs) (auto split: if_splits)

lemma resolveParent_finds:
  assumes "parent \<noteq> []" and "[] \<notin> fst ` set (allTests s)"
  shows "resolveParent test parent s \<noteq> Panic q"
proof (cases "find (\<lambda>name. prefix (name @ ''/'') test)
                (sort_key (\<lambda>name. - int (length name)) (map fst (allTests s)))")
  case None
  then show ?thesis using assms(1) by (simp add: resolveParent_def Let_def split: option.splits)
next
  case (Some name)
  then have "name \<in> set (sort_key (\<lambda>name. - int (length name)) (map fst (allTests s)))"
    by (rule find_in_set)
  then have "name \<in> fst ` set (allTests s)" by simp
  then have "name \<noteq> []" using assms(2) by blast
  then show ?thesis using Some by (simp add: resolveParent_def Let_def split: option.splits)
qed

lemma updateExecutionTimes_no_missing_parent [simp]:
  "updateExecutionTimes rt e s \<noteq> Panic (ParentNotFound x)"
  by (simp add: updateExecutionTimes_def)

lemma update_each_no_missing_parent [simp]:
  "update_each e c as s \<noteq> Panic (ParentNotFound x)"
  by (induction as arbitrary: s)
     (simp_all add: and_then_Panic updateExecutionTimesWithCount_def)

lemma startTest_no_missing_parent [simp]: "startTest e s \<noteq> Panic (ParentNotFound x)"
  by (simp add: startTest_def and_then_Panic updateRunningTests_def with_test_def split: option.splits)

lemma startFirstChild_no_missing_parent [simp]:
  "startFirstChild e rp s \<noteq> Panic (ParentNotFound x)"
  by (simp add: startFirstChild_def and_then_Panic with_test_def Let_def split: option.splits)

lemma stopSibling_no_missing_parent [simp]:
  "stopSibling fuel e rt ps parent s \<noteq> Panic (ParentNotFound x)"
proof (induction fuel arbitrary: ps)
  case 0
  then show ?case by simp
next
  case (Suc fuel)
  then show ?case
    by (simp add: and_then_Panic with_test_def Let_def split: option.splits)
qed

lemma stopSiblings_no_missing_parent [simp]:
  "stopSiblings e parent rts s \<noteq> Panic (ParentNotFound x)"
proof (induction rts arbitrary: s)
  case Nil
  then show ?case by simp
next
  case (Cons rt rts)
  then show ?case by (auto simp: and_then_Panic)
qed

lemma handleRun_no_missing_parent:
  assumes "Test e \<noteq> []" and "[] \<notin> fst ` set (allTests s)"
  shows "handleRun seed e s \<noteq> Panic (ParentNotFound x)"
proof -
  obtain parent0 subtest where sub: "isSubTest (Test e) = (parent0, subtest)"
    by (cases "isSubTest (Test e)")
  have keys: "[] \<notin> fst ` set (allTests (allocate e s))"
    using assms by (simp add: allocate_facts dom_update)
  have "resolveParent (Test e) parent0 (allocate e s) \<noteq> Panic (ParentNotFound x)" if subtest
    using that sub isSubTest_parent_nonempty[of "Test e" parent0] keys
    by (intro resolveParent_finds) simp_all
  then show ?thesis
    by (auto simp: handleRun_def sub and_then_Panic Let_def split: option.splits)
qed

lemma step_no_missing_parent:
  assumes "[] \<notin> fst ` set (allTests s)"
  shows "step seed e s \<noteq> Panic (ParentNotFound x)"
proof (cases "Test e = []")
  case True
  then show ?thesis by (simp add: step_def)
next
  case False
  have "handlePause e s \<noteq> Panic (ParentNotFound x)"
    by (simp add: handlePause_def and_then_Panic updateRunningTests_def Let_def split: option.splits)
  moreover have "handleCont e s \<noteq> Panic (ParentNotFound x)"
  proof -
    have "update_each_counting e as s \<noteq> Panic (ParentNotFound x)" for as
      by (simp add: update_each_counting_eq)
    then show ?thesis
      by (simp add: handleCont_def and_then_Panic Let_def split: option.splits)
  qed
  moreover have "handleStop e s \<noteq> Panic (ParentNotFound x)"
    by (simp add: handleStop_def and_then_Panic updateRunningTests_def Let_def split: option.splits)
  ultimately show ?thesis
    using handleRun_no_missing_parent[OF False assms, of seed x] by (simp add: step_def)
qed

lemma step_keeps_keys_named:
  assumes "step seed e s = Ok s'" and "wf_maps s" and "parents_below s"
    and "[] \<notin> fst ` set (allTests s)"
  shows "[] \<notin> fst ` set (allTests s')"
proof (cases "Test e = []")
  case True
  with assms(1,4) show ?thesis by (simp add: step_def)
next
  case False
  from step_maps[OF assms(1,2,3)]
  have "allTests s' = allTests s
        \<or> allTests s' = AList.update (Test e) (length (heap s)) (allTests s)"
    by blast
  then show ?thesis
  proof
    assume "allTests s' = allTests s"
    then show ?thesis using assms(4) by simp
  next
    assume "allTests s' = AList.update (Test e) (length (heap s)) (allTests s)"
    then have "fst ` set (allTests s') = {Test e} \<union> fst ` set (allTests s)"
      by (simp only: dom_update)
    then show ?thesis using assms(4) False by auto
  qed
qed

text \<open>
  Whatever the stream and the map orders, processing from the empty state never ends in
  the panic of line 143.
\<close>

theorem missing_parent_panic_unreachable:
  "process evs init \<noteq> Panic (ParentNotFound x)"
proof -
  have "process evs s \<noteq> Panic (ParentNotFound x)"
    if "wf_maps s" "parents_below s" "[] \<notin> fst ` set (allTests s)" for s
    using that
  proof (induction evs arbitrary: s)
    case Nil
    then show ?case by simp
  next
    case (Cons y evs)
    obtain seed e where y: "y = (seed, e)" by (cases y)
    have "process evs s1 \<noteq> Panic (ParentNotFound x)" if s1: "step seed e s = Ok s1" for s1
    proof (rule Cons.IH)
      show "wf_maps s1" "parents_below s1" using step_effect[OF s1 Cons.prems(1,2)] by blast+
      show "[] \<notin> fst ` set (allTests s1)" by (rule step_keeps_keys_named[OF s1 Cons.prems])
    qed
    then show ?case
      using step_no_missing_parent[OF Cons.prems(3), of seed e x] by (auto simp: y and_then_Panic)
  qed
  then show ?thesis using init_wf by (simp add: init_def)
qed

subsection \<open>Every order is the order of some seed\<close>

text \<open>
  \<open>range_order\<close> reaches every permutation of the entries, and the report can list the
  tests in every order that is sorted by adjusted time.
\<close>

lemma range_order_complete:
  "mset ys = mset xs \<Longrightarrow> \<exists>seed. range_order seed xs = ys"
proof (induction ys arbitrary: xs)
  case Nil
  then show ?case by (intro exI[of _ "[]"]) simp
next
  case (Cons y ys)
  from Cons.prems have "y \<in> set xs" by (metis list.set_intros(1) mset_eq_setD)
  then obtain i where i: "i < length xs" "xs ! i = y" by (auto simp: in_set_conv_nth)
  then obtain x xs' where xs: "xs = x # xs'" by (cases xs) auto
  define rest where "rest = take i xs @ drop (Suc i) xs"
  have "mset xs = add_mset y (mset rest)"
    using id_take_nth_drop[OF i(1)] i(2) unfolding rest_def
    by (metis mset.simps(2) mset_append union_mset_add_mset_right)
  with Cons.prems have "mset ys = mset rest" by simp
  from Cons.IH[OF this] obtain seed where seed: "range_order seed rest = ys" ..
  have m: "i mod Suc (length xs') = i" using i(1) by (simp add: xs)
  have "range_order (i # seed) xs = y # ys"
    using seed i(2) unfolding xs rest_def by (simp add: m del: drop_Suc_Cons take_Suc_Cons nth_Cons_Suc)
  then show ?case ..
qed

lemma selected_any_tie_order:
  assumes "mset ys = mset (allTests s)"
    and "sorted (map (\<lambda>(k, test). - AdjustedExecutionTime (deref s test)) ys)"
  shows "\<exists>seed. selected seed s = map snd (take (min (length ys) resultsToList) ys)"
proof -
  from range_order_complete[OF assms(1)] obtain seed where "range_order seed (allTests s) = ys" ..
  then have "selected seed s = map snd (take (min (length ys) resultsToList) ys)"
    using assms(2) by (simp add: selected_def Let_def sort_key_id_if_sorted min_def)
  then show ?thesis ..
qed

subsection \<open>The lines of the report\<close>

lemma length_range_order [simp]: "length (range_order seed xs) = length xs"
  using mset_range_order[of seed xs] by (metis size_mset)

lemma reportLine_Panic: "reportLine test = Panic p \<longleftrightarrow> zero_divisor test \<and> p = DivideByZero"
  by (auto simp: reportLine_def zero_divisor_def Let_def)

lemma reportLine_returns [simp]: "reportLine test \<noteq> Diverge"
  by (simp add: reportLine_def Let_def)

lemma reportLine_Ok:
  "\<not> zero_divisor test \<Longrightarrow> \<exists>l. reportLine test = Ok l"
  by (cases "reportLine test") (simp_all add: reportLine_Panic)

lemma deref_Printf [simp]: "deref (Printf l s) a = deref s a"
  by (simp add: deref_def Printf_def)

lemma printResults_extends:
  "\<exists>ls. printed (fst (printResults tests s)) = printed s @ ls"
proof (induction tests arbitrary: s)
  case Nil
  then show ?case by simp
next
  case (Cons test tests)
  show ?case
  proof (cases "reportLine (deref s test)")
    case (Ok l)
    from Cons.IH[of "Printf l s"] obtain ls where
      "printed (fst (printResults tests (Printf l s))) = printed (Printf l s) @ ls" ..
    then show ?thesis using Ok by (simp add: Printf_def)
  qed simp_all
qed

lemma printResults_prefix:
  "list_all (\<lambda>test. \<not> zero_divisor (deref s test)) pre \<Longrightarrow>
   \<exists>s1. printResults (pre @ rest) s = printResults rest s1
        \<and> length (printed s1) = length (printed s) + length pre \<and> heap s1 = heap s"
proof (induction pre arbitrary: s)
  case Nil
  show ?case by (intro exI[of _ s]) simp
next
  case (Cons test pre)
  from Cons.prems obtain l where l: "reportLine (deref s test) = Ok l"
    using reportLine_Ok[of "deref s test"] by auto
  have "list_all (\<lambda>test. \<not> zero_divisor (deref (Printf l s) test)) pre"
    using Cons.prems by simp
  from Cons.IH[OF this] obtain s1 where
    "printResults (pre @ rest) (Printf l s) = printResults rest s1"
    "length (printed s1) = length (printed (Printf l s)) + length pre" "heap s1 = heap (Printf l s)"
    by blast
  then show ?case using l by (intro exI[of _ s1]) (simp add: Printf_def)
qed

lemma printed_warnings:
  "length (printed (fold (\<lambda>(k, runningTest). Printf (g runningTest)) xs s0)) = length (printed s0) + length xs
   \<and> heap (fold (\<lambda>(k, runningTest). Printf (g runningTest)) xs s0) = heap s0"
  for xs :: "(string \<times> addr) list"
  by (induction xs arbitrary: s0) (auto simp: Printf_def)

text \<open>
  Claim C7, as the code has it. Let \<open>test\<close> be the record of the \<open>i\<close>-th of the tests
  selected for the report, and let the loop reach it: at no test selected before it does
  the report divide by zero. Let \<open>a\<close> and \<open>t\<close> be its adjusted and its total time
  rounded to the millisecond. The line of this test comes after what was printed before
  the report, the warnings (one for each running test) and the lines of the \<open>i\<close> tests
  before it. When \<open>a\<close> and \<open>t\<close> differ and \<open>a\<close> is not zero, the line has both times and
  the factor \<open>duration_div t a\<close>, the quotient of the rounded times truncated towards zero;
  when they are equal, the line has the single time; when they differ and \<open>a\<close> is zero,
  the report ends at this test in the panic of the division by zero, its line not
  printed.
\<close>

theorem report_concurrency_factor:
  assumes "i < length (selected seed2 s)"
    and "\<forall>j<i. \<not> zero_divisor (deref s (selected seed2 s ! j))"
    and "test = deref s (selected seed2 s ! i)"
    and "a = Round (AdjustedExecutionTime test) Millisecond"
    and "t = Round (TotalExecutionTime test) Millisecond"
    and "out = printed (fst (report seed1 seed2 s))"
    and "n = length (printed s) + length (runningTests s) + i"
  shows "(a \<noteq> t \<and> a \<noteq> 0 \<longrightarrow> n < length out
            \<and> out ! n = ResultParallel (RunningTest.Package test) (Name test) a t (duration_div t a))
       \<and> (a = t \<longrightarrow> n < length out \<and> out ! n = ResultSingle (RunningTest.Package test) (Name test) a)
       \<and> (a \<noteq> t \<and> a = 0 \<longrightarrow> length out = n \<and> snd (report seed1 seed2 s) = Panic DivideByZero)"
proof -
  define sel where "sel = selected seed2 s"
  define s0 where "s0 = fold (\<lambda>(k, runningTest). Printf (WarnStillRunning (Name (deref s runningTest))))
          (range_order seed1 (runningTests s)) s"
  have s0: "length (printed s0) = length (printed s) + length (runningTests s)" "heap s0 = heap s"
    using printed_warnings[of "\<lambda>rt. WarnStillRunning (Name (deref s rt))" "range_order seed1 (runningTests s)" s]
    by (simp_all add: s0_def)
  have rep: "report seed1 seed2 s = printResults sel s0"
    by (simp add: report_def sel_def s0_def)
  have d0: "deref s0 = deref s" using s0(2) by (simp add: deref_def fun_eq_iff)
  have i: "i < length sel" using assms(1) by (simp add: sel_def)
  have split: "sel = take i sel @ sel ! i # drop (Suc i) sel"
    using i by (rule id_take_nth_drop)
  have "list_all (\<lambda>test. \<not> zero_divisor (deref s0 test)) (take i sel)"
    using assms(2) i by (simp add: list_all_length d0 sel_def)
  from printResults_prefix[OF this, of "sel ! i # drop (Suc i) sel"] split
  obtain s1 where s1: "printResults sel s0 = printResults (sel ! i # drop (Suc i) sel) s1"
    and len1: "length (printed s1) = n" and h1: "heap s1 = heap s"
    using i by (auto simp: s0 assms(7))
  have d1: "deref s1 (sel ! i) = test" using h1 by (simp add: deref_def assms(3) sel_def)
  have line: "n < length out \<and> out ! n = l" if l: "reportLine test = Ok l" for l
  proof -
    obtain ls where "printed (fst (printResults (drop (Suc i) sel) (Printf l s1))) = printed (Printf l s1) @ ls"
      using printResults_extends by blast
    then have "out = printed s1 @ l # ls"
      using l by (simp add: assms(6) rep s1 d1 Printf_def)
    then show ?thesis using len1 by (simp add: nth_append)
  qed
  have stop: "length out = n \<and> snd (report seed1 seed2 s) = Panic DivideByZero"
    if "reportLine test = Panic DivideByZero"
    using that len1 by (simp add: assms(6) rep s1 d1)
  show ?thesis
    using line stop by (simp add: reportLine_def Let_def assms(4,5))
qed

text \<open>
  An instance of claim C7. \<open>A\<close> (3 ms, total 5 ms) and \<open>B\<close> (2 ms, total 4 ms) are
  selected before \<open>C\<close> and \<open>D\<close> (0.4 ms each, total 0.8 ms): the report prints the
  line of \<open>A\<close> with the factor 1 and the line of \<open>B\<close> with the factor 2, and then
  panics at \<open>C\<close>.
\<close>

theorem report_concurrency_factor_witness:
  "\<exists>s. process [([], event 0 ''run'' ''A'' []), ([], event (1 * Millisecond) ''run'' ''B'' []),
                 ([], event (5 * Millisecond) ''pass'' ''A'' []),
                 ([], event (5 * Millisecond) ''pass'' ''B'' []),
                 ([], event (5 * Millisecond) ''run'' ''C'' []),
                 ([], event (5 * Millisecond) ''run'' ''D'' []),
                 ([], event 5800000 ''pass'' ''C'' []),
                 ([], event 5800000 ''pass'' ''D'' [])] init = Ok s
     \<and> map (\<lambda>test. Name (deref s test)) (selected [] s) = [''A'', ''B'', ''C'', ''D'']
     \<and> printed (fst (report [] [] s))
          = [ResultParallel [] ''A'' (3 * Millisecond) (5 * Millisecond) 1,
             ResultParallel [] ''B'' (2 * Millisecond) (4 * Millisecond) 2]
     \<and> snd (report [] [] s) = Panic DivideByZero"
proof -
  define s where "s =
    \<lparr>heap = [\<lparr>Name = ''A'', Package = [], LastTimestamp = 5000000, AdjustedExecutionTime = 3000000,
               TotalExecutionTime = 5000000, Children = [], Parent = None,
               AssumedStopped = False, Parallel = False\<rparr>,
             \<lparr>Name = ''B'', Package = [], LastTimestamp = 5000000, AdjustedExecutionTime = 2000000,
               TotalExecutionTime = 4000000, Children = [], Parent = None,
               AssumedStopped = False, Parallel = False\<rparr>,
             \<lparr>Name = ''C'', Package = [], LastTimestamp = 5800000, AdjustedExecutionTime = 400000,
               TotalExecutionTime = 800000, Children = [], Parent = None,
               AssumedStopped = False, Parallel = False\<rparr>,
             \<lparr>Name = ''D'', Package = [], LastTimestamp = 5800000, AdjustedExecutionTime = 400000,
               TotalExecutionTime = 800000, Children = [], Parent = None,
               AssumedStopped = False, Parallel = False\<rparr>],
      allTests = [(''A'', 0), (''B'', 1), (''C'', 2), (''D'', 3)], runningTests = [], printed = []\<rparr>"
  have s: "process [([], event 0 ''run'' ''A'' []), ([], event (1 * Millisecond) ''run'' ''B'' []),
                 ([], event (5 * Millisecond) ''pass'' ''A'' []),
                 ([], event (5 * Millisecond) ''pass'' ''B'' []),
                 ([], event (5 * Millisecond) ''run'' ''C'' []),
                 ([], event (5 * Millisecond) ''run'' ''D'' []),
                 ([], event 5800000 ''pass'' ''C'' []),
                 ([], event 5800000 ''pass'' ''D'' [])] init = Ok s"
    by (simp add: s_def handler_defs)
  have sel: "selected [] s = [0, 1, 2, 3]"
    by (simp add: s_def selected_def resultsToList_def deref_def)
  have p: "printed s = []" "runningTests s = []" by (simp_all add: s_def)
  define r0 where "r0 = deref s (selected [] s ! 0)"
  define r1 where "r1 = deref s (selected [] s ! 1)"
  define r2 where "r2 = deref s (selected [] s ! 2)"
  have rec: "r0 = hd (heap s)" "r1 = hd (tl (heap s))" "r2 = hd (tl (tl (heap s)))"
    by (simp_all add: r0_def r1_def r2_def sel deref_def) (simp_all add: s_def)
  have names: "map (\<lambda>test. Name (deref s test)) (selected [] s) = [''A'', ''B'', ''C'', ''D'']"
    by (simp add: sel) (simp add: s_def deref_def)
  have i: "0 < length (selected [] s)" "1 < length (selected [] s)" "2 < length (selected [] s)"
    by (simp_all add: sel)
  have adj: "3 * Millisecond = Round (AdjustedExecutionTime r0) Millisecond"
      "2 * Millisecond = Round (AdjustedExecutionTime r1) Millisecond"
      "0 = Round (AdjustedExecutionTime r2) Millisecond"
    by (simp_all add: rec s_def Round_def duration_rem_def wrap64_def Millisecond_def)
  have tot: "5 * Millisecond = Round (TotalExecutionTime r0) Millisecond"
      "4 * Millisecond = Round (TotalExecutionTime r1) Millisecond"
      "1 * Millisecond = Round (TotalExecutionTime r2) Millisecond"
    by (simp_all add: rec s_def Round_def duration_rem_def wrap64_def Millisecond_def)
  have nz: "\<not> zero_divisor r0" "\<not> zero_divisor r1"
    using adj(1,2)[symmetric] by (simp_all add: zero_divisor_def Millisecond_def)
  have z: "\<forall>j<0. \<not> zero_divisor (deref s (selected [] s ! j))"
      "\<forall>j<1. \<not> zero_divisor (deref s (selected [] s ! j))"
      "\<forall>j<2. \<not> zero_divisor (deref s (selected [] s ! j))"
    using nz by (simp_all add: r0_def r1_def less_Suc_eq numeral_2_eq_2)
  let ?out = "printed (fst (report [] [] s))"
  have l0: "0 < length ?out \<and> ?out ! 0 = ResultParallel [] ''A'' (3 * Millisecond) (5 * Millisecond) 1"
    using report_concurrency_factor[OF i(1) z(1) r0_def adj(1) tot(1) refl refl, of "[]"]
    by (simp add: p rec) (simp add: s_def duration_div_def wrap64_def Millisecond_def)
  have l1: "1 < length ?out \<and> ?out ! 1 = ResultParallel [] ''B'' (2 * Millisecond) (4 * Millisecond) 2"
    using report_concurrency_factor[OF i(2) z(2) r1_def adj(2) tot(2) refl refl, of "[]"]
    by (simp add: p rec) (simp add: s_def duration_div_def wrap64_def Millisecond_def)
  have l2: "length ?out = 2 \<and> snd (report [] [] s) = Panic DivideByZero"
    using report_concurrency_factor[OF i(3) z(3) r2_def adj(3) tot(3) refl refl, of "[]"]
    by (simp add: p Millisecond_def)
  obtain x y where out: "?out = [x, y]"
    using l2 by (cases ?out; cases "tl ?out") auto
  with l0 l1 have "?out = [ResultParallel [] ''A'' (3 * Millisecond) (5 * Millisecond) 1,
             ResultParallel [] ''B'' (2 * Millisecond) (4 * Millisecond) 2]"
    by simp
  with s names l2 show ?thesis by (intro exI[of _ s]) simp
qed

subsection \<open>A parallel test is never assumed stopped\<close>






end
